theory Spec2Isabelle
  imports Complex_Main
begin

section \<open>JavaScript values used by the screens\<close>

text \<open>
  A JavaScript \<open>number\<close> is modelled by its value: a finite real, one of the two
  infinities, or NaN. Equality of this datatype is the \<open>SameValueZero\<close> comparison that
  \<open>Map\<close> uses for its keys (NaN equals NaN, and the two zeros are one value).
\<close>

datatype jsnum = Fin real | PosInf | NegInf | NaN

datatype js_error = TypeError | RangeError | Error string

section \<open>Data model of \<open>app/(tabs)/home.tsx\<close>\<close>

record Region =
  latitude :: jsnum
  longitude :: jsnum
  latitudeDelta :: jsnum
  longitudeDelta :: jsnum

text \<open>The field \<open>id\<close> of the interface \<open>Station\<close> is written \<open>id'\<close>.\<close>

record Station =
  id' :: jsnum
  name :: string
  latitude :: jsnum
  longitude :: jsnum
  address :: "string option"
  price :: "jsnum option"
  fuel_type :: "string option"

section \<open>The insertion-ordered \<open>Map\<close>\<close>

text \<open>
  A \<open>Map\<close> is the list of its entries in insertion order. \<open>Map.prototype.set\<close> replaces
  the value of a key that is present, leaving the entry where it is, and appends the
  entry of a new key. \<open>new Map(entries)\<close> sets the entries one after the other;
  \<open>Array.from(m.values())\<close> lists the values in entry order.
\<close>

fun Map_set :: "'k \<Rightarrow> 'v \<Rightarrow> ('k \<times> 'v) list \<Rightarrow> ('k \<times> 'v) list" where
  "Map_set k v [] = [(k, v)]"
| "Map_set k v ((k', v') # m) = (if k' = k then (k', v) # m else (k', v') # Map_set k v m)"

definition new_Map :: "('k \<times> 'v) list \<Rightarrow> ('k \<times> 'v) list" where
  "new_Map entries = foldl (\<lambda>m (k, v). Map_set k v m) [] entries"

definition Map_values :: "('k \<times> 'v) list \<Rightarrow> 'v list" where
  "Map_values m = map snd m"

section \<open>Merging a fetched batch into the station list\<close>

text \<open>
  The updater that \<open>fetchStationsForRegion\<close> hands to \<open>setStations\<close>:
  \<^verbatim>\<open>
  prevStations => {
      const stationMap = new Map(prevStations.map(s => [s.id, s]));
      (data as Station[]).forEach(newStation => stationMap.set(newStation.id, newStation));
      return Array.from(stationMap.values());
  }
  \<close>
\<close>

definition mergeStations :: "Station list \<Rightarrow> Station list \<Rightarrow> Station list" where
  "mergeStations prevStations data =
     (let stationMap = new_Map (map (\<lambda>s. (id' s, s)) prevStations);
          stationMap' = foldl (\<lambda>m newStation. Map_set (id' newStation) newStation m) stationMap data
      in Map_values stationMap')"

text \<open>
  Two notions for stating what the merge computes. \<open>override batch s\<close> is the record
  that a batch leaves under the id of \<open>s\<close>: the last record of the batch with that id,
  or \<open>s\<close> itself when the batch has none. \<open>firstById\<close> keeps, of the stations of
  each id, the first one.
\<close>

definition override :: "Station list \<Rightarrow> Station \<Rightarrow> Station" where
  "override batch s =
     (case find (\<lambda>n. id' n = id' s) (rev batch) of Some n \<Rightarrow> n | None \<Rightarrow> s)"

function firstById :: "Station list \<Rightarrow> Station list" where
  "firstById [] = []"
| "firstById (s # ss) = s # firstById (filter (\<lambda>t. id' t \<noteq> id' s) ss)"
  by pat_completeness auto
termination
  by (relation "measure length") (auto simp: less_Suc_eq_le)

definition keyed :: "(jsnum \<times> Station) list \<Rightarrow> bool" where
  "keyed m \<longleftrightarrow> distinct (map fst m) \<and> (\<forall>e \<in> set m. id' (snd e) = fst e)"

text \<open>One step of the \<open>forEach\<close> of the merge.\<close>

abbreviation step :: "(jsnum \<times> Station) list \<Rightarrow> Station \<Rightarrow> (jsnum \<times> Station) list" where
  "step \<equiv> (\<lambda>m newStation. Map_set (id' newStation) newStation m)"

text \<open>A station with the given id and name, for the concrete instances below.\<close>

definition station :: "real \<Rightarrow> string \<Rightarrow> Station" where
  "station i n = \<lparr> id' = Fin i, name = n, latitude = Fin 0, longitude = Fin 0,
     address = None, price = None, fuel_type = None \<rparr>"

section \<open>Filtering the station list by name\<close>

text \<open>
  Strings are lists of code units; \<^typ>\<open>char\<close> covers the code units below 256
  (Latin-1). On these, \<open>String.prototype.trim\<close> strips TAB, LF, VT, FF, CR, SPACE and
  NBSP from both ends, and \<open>toLowerCase\<close> maps \<open>A\<close>--\<open>Z\<close> and the capital letters
  U+00C0--U+00DE (the multiplication sign U+00D7 apart) to the code unit 32 above.
\<close>

definition is_whitespace :: "char \<Rightarrow> bool" where
  "is_whitespace c \<longleftrightarrow> (of_char c :: nat) \<in> {9, 10, 11, 12, 13, 32, 160}"

definition trim :: "string \<Rightarrow> string" where
  "trim s = rev (dropWhile is_whitespace (rev (dropWhile is_whitespace s)))"

definition toLowerCase_unit :: "char \<Rightarrow> char" where
  "toLowerCase_unit c =
     (let n = (of_char c :: nat)
      in if (65 \<le> n \<and> n \<le> 90) \<or> (192 \<le> n \<and> n \<le> 222 \<and> n \<noteq> 215)
         then char_of (n + 32) else c)"

definition toLowerCase :: "string \<Rightarrow> string" where
  "toLowerCase s = map toLowerCase_unit s"

text \<open>\<open>s.includes(t)\<close>: does \<open>t\<close> start at some position of \<open>s\<close>?\<close>

fun startsWith :: "string \<Rightarrow> string \<Rightarrow> bool" where
  "startsWith s [] = True"
| "startsWith [] (d # t) = False"
| "startsWith (c # s) (d # t) = (c = d \<and> startsWith s t)"

fun String_includes :: "string \<Rightarrow> string \<Rightarrow> bool" where
  "String_includes [] t = (t = [])"
| "String_includes (c # s) t = (startsWith (c # s) t \<or> String_includes s t)"

text \<open>
  \<^verbatim>\<open>
  const filteredStations = useMemo(() => {
      if (!filterTerm.trim()) return stations;
      const lowercasedFilter = filterTerm.toLowerCase();
      return stations.filter(s => s.name.toLowerCase().includes(lowercasedFilter));
  }, [stations, filterTerm]);
  \<close>
\<close>

definition filteredStations :: "Station list \<Rightarrow> string \<Rightarrow> Station list" where
  "filteredStations stations filterTerm =
     (if trim filterTerm = [] then stations
      else let lowercasedFilter = toLowerCase filterTerm
           in filter (\<lambda>s. String_includes (toLowerCase (name s)) lowercasedFilter) stations)"

section \<open>Bounds of a route\<close>

text \<open>
  A coordinate is a pair \<open>[longitude, latitude]\<close>. The relational operators and
  \<open>Math.max\<close>, \<open>Math.min\<close> on numbers: a comparison with NaN is false, and
  \<open>Math.max\<close> and \<open>Math.min\<close> return NaN when an argument is NaN.
\<close>

type_synonym coord = "jsnum \<times> jsnum"

fun js_lt :: "jsnum \<Rightarrow> jsnum \<Rightarrow> bool" where
  "js_lt NaN b = False"
| "js_lt a NaN = False"
| "js_lt (Fin a) (Fin b) = (a < b)"
| "js_lt a NegInf = False"
| "js_lt NegInf b = True"
| "js_lt PosInf b = False"
| "js_lt a PosInf = True"

definition js_gt :: "jsnum \<Rightarrow> jsnum \<Rightarrow> bool" where
  "js_gt a b = js_lt b a"

definition Math_max :: "jsnum \<Rightarrow> jsnum \<Rightarrow> jsnum" where
  "Math_max a b = (if a = NaN \<or> b = NaN then NaN else if js_lt a b then b else a)"

definition Math_min :: "jsnum \<Rightarrow> jsnum \<Rightarrow> jsnum" where
  "Math_min a b = (if a = NaN \<or> b = NaN then NaN else if js_lt b a then b else a)"

text \<open>
  The scan of \<open>handleFindTrip\<close> in \<open>home.tsx\<close>:
  \<^verbatim>\<open>
  const coords = routeGeometry.coordinates;
  let minLon = coords[0][0], maxLon = coords[0][0], minLat = coords[0][1], maxLat = coords[0][1];
  coords.forEach((c: number[]) => {
      if (c[0] < minLon) minLon = c[0];
      if (c[0] > maxLon) maxLon = c[0];
      if (c[1] < minLat) minLat = c[1];
      if (c[1] > maxLat) maxLat = c[1];
  });
  \<close>
  Reading \<open>coords[0][0]\<close> of an empty array throws a TypeError. The result is the pair
  of corners \<open>[minLon, minLat]\<close>, \<open>[maxLon, maxLat]\<close> that is passed on to \<open>fitBounds\<close>.
\<close>

record extrema =
  minLon :: jsnum
  maxLon :: jsnum
  minLat :: jsnum
  maxLat :: jsnum

definition scan :: "extrema \<Rightarrow> coord \<Rightarrow> extrema" where
  "scan e c =
     (let e1 = (if js_lt (fst c) (minLon e) then e\<lparr>minLon := fst c\<rparr> else e);
          e2 = (if js_gt (fst c) (maxLon e1) then e1\<lparr>maxLon := fst c\<rparr> else e1);
          e3 = (if js_lt (snd c) (minLat e2) then e2\<lparr>minLat := snd c\<rparr> else e2)
      in (if js_gt (snd c) (maxLat e3) then e3\<lparr>maxLat := snd c\<rparr> else e3))"

definition handleFindTrip_bounds :: "coord list \<Rightarrow> js_error + (coord \<times> coord)" where
  "handleFindTrip_bounds coords =
     (case coords of
        [] \<Rightarrow> Inl TypeError
      | c0 # _ \<Rightarrow>
          let e = foldl scan
                    \<lparr>minLon = fst c0, maxLon = fst c0, minLat = snd c0, maxLat = snd c0\<rparr> coords
          in Inr ((minLon e, minLat e), (maxLon e, maxLat e)))"

text \<open>
  The reduction of \<open>fetchRoute\<close> in \<open>addStation.tsx\<close>:
  \<^verbatim>\<open>
  const bounds = coordinates.reduce((acc: any, coord: any) => {
      return {
          ne: [Math.max(acc.ne[0], coord[0]), Math.max(acc.ne[1], coord[1])],
          sw: [Math.min(acc.sw[0], coord[0]), Math.min(acc.sw[1], coord[1])],
      };
  }, { ne: [coordinates[0][0], coordinates[0][1]], sw: [coordinates[0][0], coordinates[0][1]] });
  \<close>
\<close>

record route_bounds =
  ne :: coord
  sw :: coord

definition reducer :: "route_bounds \<Rightarrow> coord \<Rightarrow> route_bounds" where
  "reducer acc coord =
     \<lparr> ne = (Math_max (fst (ne acc)) (fst coord), Math_max (snd (ne acc)) (snd coord)),
       sw = (Math_min (fst (sw acc)) (fst coord), Math_min (snd (sw acc)) (snd coord)) \<rparr>"

definition fetchRoute_bounds :: "coord list \<Rightarrow> js_error + route_bounds" where
  "fetchRoute_bounds coordinates =
     (case coordinates of
        [] \<Rightarrow> Inl TypeError
      | c0 # _ \<Rightarrow> Inr (foldl reducer \<lparr> ne = (fst c0, snd c0), sw = (fst c0, snd c0) \<rparr> coordinates))"

text \<open>A coordinate with finite entries, and whether a number is finite.\<close>

definition finite_coord :: "real \<times> real \<Rightarrow> coord" where
  "finite_coord p = (Fin (fst p), Fin (snd p))"

fun isFinite :: "jsnum \<Rightarrow> bool" where
  "isFinite (Fin x) = True"
| "isFinite v = False"

section \<open>The state of \<open>HomeScreen\<close> and its handlers\<close>

text \<open>
  The screen state is the record of the \<open>useState\<close> cells the handlers write, together
  with what the handlers do to the outside: the calls made on the map camera (when the
  camera ref is attached), the lines written with \<open>console.error\<close>, the alerts shown,
  the request bodies sent to the backend function \<open>get-google-stations\<close>, the positions
  sent to the reverse geocoder, and the pending timer of each debounced callback.
  Time is a number of milliseconds, passed to the handlers.
\<close>

datatype camera_call =
  setCamera coord nat nat
| fitBounds coord coord "nat list" nat

record RouteOverlay =
  geometry :: "coord list"
  bounds :: "(coord \<times> coord) option"

record LocationInfo =
  city :: "string option"
  country :: "string option"
  countryCode :: "string option"

record HomeState =
  isLoading :: bool
  stations :: "Station list"
  currentRegion :: "Region option"
  locationInfo :: LocationInfo
  isTripModeActive :: bool
  isTripLoading :: bool
  route :: "RouteOverlay option"
  cameraRef :: bool
  camera :: "camera_call list"
  console :: "string list"
  alerts :: "(string \<times> js_error) list"
  invoked :: "(jsnum \<times> jsnum) list"
  geocoded :: "(jsnum \<times> jsnum) list"
  debouncedFetch :: "(nat \<times> Region) option"
  debouncedUpdateLocationName :: "(nat \<times> Region) option"

text \<open>
  Modelled from the spec: the debounce utility \<open>useDebouncedCallback\<close> of the package
  \<open>use-debounce\<close>, which is not part of the sources. Following section 4.1 of the
  specification, a debounced callback keeps a single pending timer; each call resets
  the timer to the fixed delay and remembers the argument of the call; when the timer
  elapses without having been reset, the callback runs once on the latest argument.
  A pending timer is the pair of its deadline and that argument.
\<close>

definition debounce_call :: "nat \<Rightarrow> nat \<Rightarrow> 'a \<Rightarrow> (nat \<times> 'a) option" where
  "debounce_call delay now arg = Some (now + delay, arg)"

definition debounce_due :: "nat \<Rightarrow> (nat \<times> 'a) option \<Rightarrow> 'a option" where
  "debounce_due now pending =
     (case pending of
        None \<Rightarrow> None
      | Some (deadline, arg) \<Rightarrow> if deadline \<le> now then Some arg else None)"

text \<open>\<open>cameraRef.current?.f(...)\<close>: the call is made when the ref is attached.\<close>

definition cameraRef_call :: "camera_call \<Rightarrow> HomeState \<Rightarrow> HomeState" where
  "cameraRef_call c s = (if cameraRef s then s\<lparr>camera := camera s @ [c]\<rparr> else s)"

subsection \<open>\<open>fetchStationsForRegion\<close>\<close>

text \<open>
  \<^verbatim>\<open>
  const fetchStationsForRegion = useCallback(async (region: Region) => {
      if (!region) return;
      setIsLoading(true);
      try {
          const { data, error } = await supabase.functions.invoke('get-google-stations',
              { body: { latitude: region.latitude, longitude: region.longitude } });
          if (error) throw error;
          setStations(prevStations => { ... });
      } catch (err: any) { console.error("Error fetching stations:", err.message); }
      finally { setIsLoading(false); }
  }, []);
  \<close>
  The function runs in two parts: up to the \<open>await\<close>, and from the moment the backend
  call settles. The call settles with data, with an error in the response, or by
  rejecting (a network failure).
\<close>

datatype invoke_result = Data "Station list" | ErrorResponse string | Rejected string

definition fetchStationsForRegion_begin :: "Region option \<Rightarrow> HomeState \<Rightarrow> HomeState" where
  "fetchStationsForRegion_begin region s =
     (case region of
        None \<Rightarrow> s
      | Some r \<Rightarrow> s\<lparr>isLoading := True,
                    invoked := invoked s @ [(Region.latitude r, Region.longitude r)]\<rparr>)"

definition fetchStationsForRegion_try :: "invoke_result \<Rightarrow> HomeState \<Rightarrow> string + HomeState" where
  "fetchStationsForRegion_try res s =
     (case res of
        Rejected message \<Rightarrow> Inl message
      | ErrorResponse message \<Rightarrow> Inl message
      | Data data \<Rightarrow> Inr (s\<lparr>stations := mergeStations (stations s) data\<rparr>))"

definition fetchStationsForRegion_settle :: "invoke_result \<Rightarrow> HomeState \<Rightarrow> HomeState" where
  "fetchStationsForRegion_settle res s =
     (let s' = (case fetchStationsForRegion_try res s of
                  Inl message \<Rightarrow> s\<lparr>console := console s @ [''Error fetching stations: '' @ message]\<rparr>
                | Inr s'' \<Rightarrow> s'')
      in s'\<lparr>isLoading := False\<rparr>)"

subsection \<open>\<open>updateLocationName\<close>\<close>

text \<open>
  The reverse geocoder is called with the position of the region; when it answers with
  at least one result the first one becomes the location info, and a failure is logged.
\<close>

definition updateLocationName_begin :: "Region \<Rightarrow> HomeState \<Rightarrow> HomeState" where
  "updateLocationName_begin region s =
     s\<lparr>geocoded := geocoded s @ [(Region.latitude region, Region.longitude region)]\<rparr>"

definition updateLocationName_settle :: "string + LocationInfo list \<Rightarrow> HomeState \<Rightarrow> HomeState" where
  "updateLocationName_settle res s =
     (case res of
        Inl message \<Rightarrow> s\<lparr>console := console s @ [''Reverse geocoding failed (handled): '' @ message]\<rparr>
      | Inr [] \<Rightarrow> s
      | Inr (first # _) \<Rightarrow> s\<lparr>locationInfo := first\<rparr>)"

subsection \<open>The debounced callbacks and the passing of time\<close>

text \<open>
  \<^verbatim>\<open>
  const debouncedFetch = useDebouncedCallback(fetchStationsForRegion, 400);
  const debouncedUpdateLocationName = useDebouncedCallback(updateLocationName, 500);
  \<close>
  \<open>timers now\<close> runs the callbacks whose timer has elapsed at the time \<open>now\<close>.
\<close>

definition timers :: "nat \<Rightarrow> HomeState \<Rightarrow> HomeState" where
  "timers now s =
     (let s1 = (case debounce_due now (debouncedFetch s) of
                  None \<Rightarrow> s
                | Some region \<Rightarrow> fetchStationsForRegion_begin (Some region) (s\<lparr>debouncedFetch := None\<rparr>))
      in (case debounce_due now (debouncedUpdateLocationName s1) of
            None \<Rightarrow> s1
          | Some region \<Rightarrow> updateLocationName_begin region (s1\<lparr>debouncedUpdateLocationName := None\<rparr>)))"

text \<open>
  \<^verbatim>\<open>
  const onRegionDidChange = async (feature: any) => {
      const { coordinates } = feature.geometry;
      const [longitude, latitude] = coordinates;
      const region: Region = { latitude, longitude, latitudeDelta: 0.05, longitudeDelta: 0.05 };
      setCurrentRegion(region);
      debouncedFetch(region);
      if (!isTripModeActive) { debouncedUpdateLocationName(region); }
  };
  \<close>
\<close>

definition regionOf :: "coord \<Rightarrow> Region" where
  "regionOf coordinates =
     \<lparr> Region.latitude = snd coordinates, Region.longitude = fst coordinates,
       latitudeDelta = Fin (5 / 100), longitudeDelta = Fin (5 / 100) \<rparr>"

definition onRegionDidChange :: "nat \<Rightarrow> coord \<Rightarrow> HomeState \<Rightarrow> HomeState" where
  "onRegionDidChange now coordinates s =
     (let region = regionOf coordinates;
          s1 = s\<lparr>currentRegion := Some region,
                 debouncedFetch := debounce_call 400 now region\<rparr>
      in if \<not> isTripModeActive s
         then s1\<lparr>debouncedUpdateLocationName := debounce_call 500 now region\<rparr>
         else s1)"

text \<open>
  A run of viewport changes: the changes arrive at the given times, and before each
  one the timers that have elapsed by then have run.
\<close>

definition regionChanges :: "(nat \<times> coord) list \<Rightarrow> HomeState \<Rightarrow> HomeState" where
  "regionChanges changes s =
     foldl (\<lambda>s (now, coordinates). onRegionDidChange now coordinates (timers now s)) s changes"

fun gapsBelow :: "nat \<Rightarrow> nat list \<Rightarrow> bool" where
  "gapsBelow window [] = True"
| "gapsBelow window [t] = True"
| "gapsBelow window (t # t' # ts) = (t \<le> t' \<and> t' - t < window \<and> gapsBelow window (t' # ts))"

subsection \<open>\<open>handleFindTrip\<close> and \<open>cancelTripMode\<close>\<close>

text \<open>
  \<open>handleFindTrip\<close> sets \<open>isTripLoading\<close>, awaits the position, the place details and the
  routing service, and then runs from the parsed response \<open>json\<close> on without a further
  \<open>await\<close>. Its input is either an exception thrown on the way to \<open>json\<close>, or the
  response: its \<open>code\<close> and its \<open>routes\<close>, of each route the coordinates of the geometry
  and the summaries of the legs.
  \<^verbatim>\<open>
  if (json.code !== 'Ok') throw new Error('Failed to find route');
  const routeGeometry = json.routes[0].geometry;
  const bbox = json.routes[0].legs[0].summary ? null : null;
  setStations([]);
  setRoute({ geometry: routeGeometry, bounds: null });
  setTripModeActive(true);
  const coords = routeGeometry.coordinates;
  ...
  cameraRef.current?.fitBounds([minLon, minLat], [maxLon, maxLat], [50, 50, 150, 50], 1000);
  } catch (err: any) { Alert.alert("Error Finding Route", err.message); }
  finally { setIsTripLoading(false); }
  \<close>
  The body of the \<open>try\<close> returns the state it has reached and the exception, if one
  was thrown.
\<close>

record osrm_route =
  coordinates :: "coord list"
  legs :: "string list"

datatype trip_response = Threw js_error | Json string "osrm_route list"

definition handleFindTrip_begin :: "HomeState \<Rightarrow> HomeState" where
  "handleFindTrip_begin s = s\<lparr>isTripLoading := True\<rparr>"

definition handleFindTrip_try :: "trip_response \<Rightarrow> HomeState \<Rightarrow> HomeState \<times> js_error option" where
  "handleFindTrip_try response s =
     (case response of
        Threw e \<Rightarrow> (s, Some e)
      | Json code routes \<Rightarrow>
          if code \<noteq> ''Ok'' then (s, Some (Error ''Failed to find route''))
          else (case routes of
                  [] \<Rightarrow> (s, Some TypeError)
                | r # _ \<Rightarrow>
                    (case legs r of
                       [] \<Rightarrow> (s, Some TypeError)
                     | _ # _ \<Rightarrow>
                         let s1 = s\<lparr>stations := [],
                                    route := Some \<lparr>geometry = coordinates r, bounds = None\<rparr>,
                                    isTripModeActive := True\<rparr>
                         in (case handleFindTrip_bounds (coordinates r) of
                               Inl e \<Rightarrow> (s1, Some e)
                             | Inr (southwest, northeast) \<Rightarrow>
                                 (cameraRef_call
                                    (fitBounds southwest northeast [50, 50, 150, 50] 1000) s1,
                                  None)))))"

definition handleFindTrip_settle :: "trip_response \<Rightarrow> HomeState \<Rightarrow> HomeState" where
  "handleFindTrip_settle response s =
     (let (s1, thrown) = handleFindTrip_try response s;
          s2 = (case thrown of
                  None \<Rightarrow> s1
                | Some e \<Rightarrow> s1\<lparr>alerts := alerts s1 @ [(''Error Finding Route'', e)]\<rparr>)
      in s2\<lparr>isTripLoading := False\<rparr>)"

text \<open>
  \<^verbatim>\<open>
  const cancelTripMode = () => {
      setTripModeActive(false); setRoute(null);
      if (currentRegion) {
          cameraRef.current?.setCamera({
              centerCoordinate: [currentRegion.longitude, currentRegion.latitude],
              zoomLevel: 14, animationDuration: 500 });
          debouncedFetch(currentRegion);
      }
  };
  \<close>
\<close>

definition cancelTripMode :: "nat \<Rightarrow> HomeState \<Rightarrow> HomeState" where
  "cancelTripMode now s =
     (let s1 = s\<lparr>isTripModeActive := False, route := None\<rparr>
      in (case currentRegion s of
            None \<Rightarrow> s1
          | Some region \<Rightarrow>
              (cameraRef_call
                 (setCamera (Region.longitude region, Region.latitude region) 14 500) s1)
              \<lparr>debouncedFetch := debounce_call 400 now region\<rparr>))"

text \<open>The state of the screen when it is first rendered.\<close>

definition initialState :: HomeState where
  "initialState =
     \<lparr> isLoading = True, stations = [], currentRegion = None,
       locationInfo = \<lparr>city = None, country = None, countryCode = None\<rparr>,
       isTripModeActive = False, isTripLoading = False, route = None,
       cameraRef = True, camera = [], console = [], alerts = [], invoked = [], geocoded = [],
       debouncedFetch = None, debouncedUpdateLocationName = None \<rparr>"

section \<open>Formatting the distance and the duration of a route\<close>

text \<open>
  \<open>fetchRoute\<close> in \<open>addStation.tsx\<close>:
  \<^verbatim>\<open>
  setRouteDistance((route.distance / 1000).toFixed(1) + ' km');
  setRouteDuration(Math.round(route.duration / 60) + ' min');
  \<close>
  The division is the IEEE 754 binary64 division: the exact quotient rounded to the
  nearest double, ties to the even significand. The built-ins \<open>toFixed\<close>, \<open>Math.round\<close>
  and the conversion of a number to a string follow ECMA-262.
\<close>

subsection \<open>Rounding to the nearest double\<close>

fun bit_length :: "nat \<Rightarrow> nat" where
  "bit_length n = (if n = 0 then 0 else Suc (bit_length (n div 2)))"

definition pow2 :: "int \<Rightarrow> real" where
  "pow2 e = (if 0 \<le> e then 2 ^ nat e else 1 / 2 ^ nat (- e))"

text \<open>\<open>ilog2 x\<close> is the integer \<open>e\<close> with \<open>2^e \<le> x < 2^(e+1)\<close>, for positive \<open>x\<close>.\<close>

definition ilog2 :: "real \<Rightarrow> int" where
  "ilog2 x = (if 1 \<le> x then int (bit_length (nat \<lfloor>x\<rfloor>)) - 1
              else - int (bit_length (nat (\<lceil>1 / x\<rceil> - 1))))"

definition round_half_even :: "real \<Rightarrow> int" where
  "round_half_even y =
     (let f = \<lfloor>y\<rfloor>; r = y - of_int f
      in if r < 1 / 2 then f else if 1 / 2 < r then f + 1 else if even f then f else f + 1)"

text \<open>
  \<open>fl x\<close> is the double nearest to the real \<open>x\<close>: 53 bits of significand, the least
  exponent \<open>-1022\<close> (below it the subnormal numbers, with the spacing \<open>2^-1074\<close>), and
  overflow to an infinity from \<open>2^1024\<close> on.
\<close>

definition fl :: "real \<Rightarrow> jsnum" where
  "fl x =
     (if x = 0 then Fin 0
      else let a = \<bar>x\<bar>;
               u = pow2 (max (ilog2 a) (- 1022) - 52);
               y = of_int (round_half_even (a / u)) * u
           in if pow2 1024 \<le> y then (if x < 0 then NegInf else PosInf)
              else Fin (if x < 0 then - y else y))"

text \<open>\<open>x / d\<close> for a finite positive divisor \<open>d\<close>.\<close>

definition Number_divide :: "jsnum \<Rightarrow> real \<Rightarrow> jsnum" where
  "Number_divide x d = (case x of Fin a \<Rightarrow> fl (a / d) | v \<Rightarrow> v)"

subsection \<open>Decimal digits\<close>

definition digit :: "nat \<Rightarrow> char" where
  "digit d = ''0123456789'' ! (d mod 10)"

fun digits :: "nat \<Rightarrow> string" where
  "digits n = (if n < 10 then [digit n] else digits (n div 10) @ [digit (n mod 10)])"

definition pow10 :: "int \<Rightarrow> real" where
  "pow10 e = (if 0 \<le> e then 10 ^ nat e else 1 / 10 ^ nat (- e))"

function leading :: "real \<Rightarrow> nat \<Rightarrow> nat" where
  "leading x j = (if 1 \<le> x \<or> 400 \<le> j then j else leading (10 * x) (Suc j))"
  by pat_completeness auto
termination
  by (relation "measure (\<lambda>(x, j). 400 - j)") auto

text \<open>
  \<open>dec_exp x\<close> is the integer \<open>n\<close> with \<open>10^(n-1) \<le> x < 10^n\<close>, for a positive double
  \<open>x\<close> (the least positive double is above \<open>10^-324\<close>).
\<close>

definition dec_exp :: "real \<Rightarrow> int" where
  "dec_exp x = (if 1 \<le> x then int (length (digits (nat \<lfloor>x\<rfloor>)))
                else 1 - int (leading x 0))"

subsection \<open>\<open>Number::toString\<close>\<close>

text \<open>
  ECMA-262, Number::toString for a positive finite \<open>x\<close>: let \<open>n\<close>, \<open>k\<close>, \<open>s\<close> be integers
  with \<open>k \<ge> 1\<close>, \<open>10^(k-1) \<le> s < 10^k\<close>, such that \<open>s * 10^(n-k)\<close> rounds to \<open>x\<close> and \<open>k\<close> is
  as small as possible; of several such \<open>s\<close> the one for which \<open>s * 10^(n-k)\<close> is
  closest to \<open>x\<close>. \<open>candidates x k\<close> lists the triples \<open>(s, k, n)\<close> with \<open>k\<close> digits
  around \<open>x\<close> that round to \<open>x\<close>; seventeen digits identify every double.
\<close>

definition candidates :: "real \<Rightarrow> nat \<Rightarrow> (nat \<times> nat \<times> int) list" where
  "candidates x k =
     concat (map (\<lambda>n.
        let t = nat \<lfloor>x / pow10 (n - int k)\<rfloor>
        in filter (\<lambda>(s, k, n). 10 ^ (k - 1) \<le> s \<and> s < 10 ^ k \<and>
                      fl (real s * pow10 (n - int k)) = Fin x)
             [(t, k, n), (t + 1, k, n)])
        [dec_exp x, dec_exp x + 1, dec_exp x - 1])"

definition distance_to :: "real \<Rightarrow> nat \<times> nat \<times> int \<Rightarrow> real" where
  "distance_to x c = (case c of (s, k, n) \<Rightarrow> \<bar>real s * pow10 (n - int k) - x\<bar>)"

fun closest :: "real \<Rightarrow> nat \<times> nat \<times> int \<Rightarrow> (nat \<times> nat \<times> int) list \<Rightarrow> nat \<times> nat \<times> int" where
  "closest x c [] = c"
| "closest x c (d # ds) =
     (if distance_to x d < distance_to x c \<or>
         (distance_to x d = distance_to x c \<and> even (fst d) \<and> odd (fst c))
      then closest x d ds else closest x c ds)"

function shortest_from :: "real \<Rightarrow> nat \<Rightarrow> nat \<times> nat \<times> int" where
  "shortest_from x k =
     (if 17 < k then (nat \<lfloor>x / pow10 (dec_exp x - int k)\<rfloor>, k, dec_exp x)
      else case candidates x k of
             [] \<Rightarrow> shortest_from x (Suc k)
           | c # cs \<Rightarrow> closest x c cs)"
  by pat_completeness auto
termination
  by (relation "measure (\<lambda>(x, k). 18 - k)") auto

definition shortest :: "real \<Rightarrow> nat \<times> nat \<times> int" where
  "shortest x = shortest_from x 1"

definition layout :: "nat \<times> nat \<times> int \<Rightarrow> string" where
  "layout c =
     (case c of (s, k, n) \<Rightarrow>
        if int k \<le> n \<and> n \<le> 21 then digits s @ replicate (nat (n - int k)) (CHR ''0'')
        else if 0 < n \<and> n \<le> 21 then take (nat n) (digits s) @ ''.'' @ drop (nat n) (digits s)
        else if - 6 < n \<and> n \<le> 0 then ''0.'' @ replicate (nat (- n)) (CHR ''0'') @ digits s
        else let e = n - 1;
                 c = (if e < 0 then ''-'' else ''+'');
                 d = digits (nat \<bar>e\<bar>)
             in if k = 1 then digits s @ ''e'' @ c @ d
                else take 1 (digits s) @ ''.'' @ drop 1 (digits s) @ ''e'' @ c @ d)"

definition positive_toString :: "real \<Rightarrow> string" where
  "positive_toString x = layout (shortest x)"

definition Number_toString :: "jsnum \<Rightarrow> string" where
  "Number_toString v =
     (case v of
        NaN \<Rightarrow> ''NaN''
      | PosInf \<Rightarrow> ''Infinity''
      | NegInf \<Rightarrow> ''-Infinity''
      | Fin x \<Rightarrow> if x = 0 then ''0''
                 else if x < 0 then ''-'' @ positive_toString (- x)
                 else positive_toString x)"

subsection \<open>\<open>Number.prototype.toFixed\<close> and \<open>Math.round\<close>\<close>

text \<open>
  \<open>x.toFixed(f)\<close> throws a RangeError when \<open>f\<close> is above 100. Otherwise, for a finite
  \<open>x\<close> of magnitude below \<open>10^21\<close>: let \<open>n\<close> be the integer for which \<open>n / 10^f - x\<close> is
  as close to zero as possible, the larger one if there are two; its digits, padded
  with zeros on the left to \<open>f + 1\<close> digits, are split by a point before the last \<open>f\<close>.
  A magnitude from \<open>10^21\<close> on is written as by Number::toString.
\<close>

definition nearest :: "real \<Rightarrow> nat" where
  "nearest y = nat \<lfloor>y + 1 / 2\<rfloor>"

definition Number_toFixed :: "jsnum \<Rightarrow> nat \<Rightarrow> js_error + string" where
  "Number_toFixed v f =
     (if 100 < f then Inl RangeError
      else case v of
        Fin x \<Rightarrow>
          let s = (if x < 0 then ''-'' else '''');
              x = \<bar>x\<bar>
          in if 10 ^ 21 \<le> x then Inr (s @ Number_toString (Fin x))
             else let n = nearest (x * 10 ^ f);
                      m = digits n;
                      m = (if f \<noteq> 0 \<and> length m \<le> f
                           then replicate (f + 1 - length m) (CHR ''0'') @ m else m);
                      k = length m
                  in if f \<noteq> 0 then Inr (s @ take (k - f) m @ ''.'' @ drop (k - f) m)
                     else Inr (s @ m)
      | v \<Rightarrow> Inr (Number_toString v))"

text \<open>
  \<open>Math.round\<close>: the integer closest to \<open>x\<close>, the one towards \<open>+\<infinity>\<close> of two equally
  close ones.
\<close>

definition Math_round :: "jsnum \<Rightarrow> jsnum" where
  "Math_round v = (case v of Fin x \<Rightarrow> Fin (of_int \<lfloor>x + 1 / 2\<rfloor>) | v \<Rightarrow> v)"

text \<open>The two texts that \<open>fetchRoute\<close> sets.\<close>

definition routeDistance :: "jsnum \<Rightarrow> js_error + string" where
  "routeDistance distance =
     (case Number_toFixed (Number_divide distance 1000) 1 of
        Inl e \<Rightarrow> Inl e
      | Inr text \<Rightarrow> Inr (text @ '' km''))"

definition routeDuration :: "jsnum \<Rightarrow> string" where
  "routeDuration duration = Number_toString (Math_round (Number_divide duration 60)) @ '' min''"

declare bit_length.simps [simp del] digits.simps [simp del] leading.simps [simp del]
  shortest_from.simps [simp del]

section \<open>Properties of the station merge\<close>

subsection \<open>The \<open>Map\<close> operations\<close>

lemma Map_set_keys:
  "map fst (Map_set k v m) = (if k \<in> fst ` set m then map fst m else map fst m @ [k])"
proof (induction m)
  case Nil
  show ?case by simp
next
  case (Cons e m)
  obtain k' v' where e: "e = (k', v')" by (cases e)
  show ?case
  proof (cases "k' = k")
    case True
    with e show ?thesis by simp
  next
    case False
    with e Cons show ?thesis by (cases "k \<in> fst ` set m") simp_all
  qed
qed

lemma Map_set_entries:
  "set (Map_set k v m) \<subseteq> insert (k, v) (set m)"
proof (induction m)
  case Nil
  show ?case by simp
next
  case (Cons e m)
  obtain k' v' where e: "e = (k', v')" by (cases e)
  from Cons e show ?case by (cases "k' = k") auto
qed

lemma Map_set_keyed: "keyed m \<Longrightarrow> keyed (Map_set (id' x) x m)"
  unfolding keyed_def
proof (induction m)
  case Nil
  then show ?case by simp
next
  case (Cons e m)
  have "distinct (map fst (Map_set (id' x) x (e # m)))"
    using Cons.prems by (simp only: Map_set_keys split: if_splits) auto
  moreover have "\<forall>e' \<in> set (Map_set (id' x) x (e # m)). id' (snd e') = fst e'"
    using Cons.prems Map_set_entries [of "id' x" x "e # m"] by fastforce
  ultimately show ?case by simp
qed

lemma Map_set_values:
  "keyed m \<Longrightarrow> map snd (Map_set (id' x) x m) =
     (if id' x \<in> fst ` set m then map (\<lambda>s. if id' s = id' x then x else s) (map snd m)
      else map snd m @ [x])"
  unfolding keyed_def
proof (induction m)
  case Nil
  then show ?case by simp
next
  case (Cons e m)
  obtain k v where e: "e = (k, v)" by (cases e)
  show ?case
  proof (cases "k = id' x")
    case True
    with Cons.prems e have "\<forall>e' \<in> set m. id' (snd e') \<noteq> id' x" by force
    then have "map (\<lambda>s. if id' s = id' x then x else s) (map snd m) = map snd m"
      by (induction m) auto
    with True e Cons.prems show ?thesis by simp
  next
    case False
    with Cons e show ?thesis by auto
  qed
qed

lemma foldl_step_keyed: "keyed m \<Longrightarrow> keyed (foldl step m xs)"
  by (induction xs arbitrary: m) (simp_all add: Map_set_keyed)

lemma foldl_step_keys: "fst ` set (foldl step m xs) = fst ` set m \<union> id' ` set xs"
proof (induction xs arbitrary: m)
  case Nil
  then show ?case by simp
next
  case (Cons x xs)
  have "fst ` set (Map_set (id' x) x m) = insert (id' x) (fst ` set m)"
    using Map_set_keys [of "id' x" x m] by (metis (no_types, lifting) Un_insert_right append_Nil2 insert_absorb list.set(2) list.set_map set_append)
  with Cons show ?case by auto
qed

lemma new_Map_stations:
  "new_Map (map (\<lambda>s. (id' s, s)) xs) = foldl step [] xs"
  by (simp add: new_Map_def foldl_map)

lemma mergeStations_foldl:
  "mergeStations prevStations data = map snd (foldl step [] (prevStations @ data))"
  by (simp add: mergeStations_def new_Map_stations Map_values_def)

lemma firstById_ids: "id' ` set (firstById xs) = id' ` set xs"
  by (induction xs rule: firstById.induct) auto

lemma firstById_snoc:
  "firstById (xs @ [x]) = (if id' x \<in> id' ` set xs then firstById xs else firstById xs @ [x])"
  by (induction xs rule: firstById.induct) auto

lemma override_snoc:
  "override (xs @ [x]) s = (if id' x = id' s then x else override xs s)"
  by (simp add: override_def)

lemma override_id: "id' (override xs s) = id' s"
  by (auto simp: override_def split: option.splits dest: find_Some_iff [THEN iffD1])

lemma build_closed_form:
  "map snd (foldl step [] xs) = map (override xs) (firstById xs)"
proof (induction xs rule: rev_induct)
  case Nil
  then show ?case by simp
next
  case (snoc x xs)
  let ?m = "foldl step [] xs"
  have k: "keyed ?m" by (rule foldl_step_keyed) (simp add: keyed_def)
  have keys: "fst ` set ?m = id' ` set xs" by (simp add: foldl_step_keys)
  show ?case
  proof (cases "id' x \<in> id' ` set xs")
    case True
    have "map snd (foldl step [] (xs @ [x])) =
          map (\<lambda>s. if id' s = id' x then x else s) (map (override xs) (firstById xs))"
      using True keys snoc.IH Map_set_values [OF k, of x] by simp
    also have "\<dots> = map (override (xs @ [x])) (firstById xs)"
      by (auto simp: override_snoc override_id)
    finally show ?thesis using True by (simp add: firstById_snoc)
  next
    case False
    have "map snd (foldl step [] (xs @ [x])) = map (override xs) (firstById xs) @ [x]"
      using False keys snoc.IH Map_set_values [OF k, of x] by simp
    moreover have "map (override xs) (firstById xs) = map (override (xs @ [x])) (firstById xs)"
      using False firstById_ids [of xs] by (auto simp: override_snoc)
    moreover have "override (xs @ [x]) x = x" by (simp add: override_snoc)
    ultimately show ?thesis using False by (simp add: firstById_snoc)
  qed
qed

lemma mergeStations_closed_form:
  "mergeStations prevStations data =
     map (override (prevStations @ data)) (firstById (prevStations @ data))"
  unfolding mergeStations_foldl by (rule build_closed_form)


lemma firstById_subset: "set (firstById xs) \<subseteq> set xs"
  by (induction xs rule: firstById.induct) auto

lemma firstById_distinct: "distinct (map id' (firstById xs))"
proof (induction xs rule: firstById.induct)
  case 1
  show ?case by simp
next
  case (2 s ss)
  have "id' s \<notin> id' ` set (firstById (filter (\<lambda>t. id' t \<noteq> id' s) ss))"
    unfolding firstById_ids by auto
  with 2 show ?case by simp
qed

lemma firstById_append:
  "firstById (xs @ ys) = firstById xs @ firstById (filter (\<lambda>n. id' n \<notin> id' ` set xs) ys)"
proof (induction xs arbitrary: ys rule: firstById.induct)
  case 1
  show ?case by simp
next
  case (2 s ss)
  let ?ss = "filter (\<lambda>t. id' t \<noteq> id' s) ss"
  have "filter (\<lambda>n. id' n \<notin> id' ` set ?ss) (filter (\<lambda>t. id' t \<noteq> id' s) ys) =
        filter (\<lambda>n. id' n \<notin> id' ` set (s # ss)) ys"
    by (induction ys) auto
  with 2 [of "filter (\<lambda>t. id' t \<noteq> id' s) ys"] show ?case by simp
qed

lemma firstById_of_distinct: "distinct (map id' xs) \<Longrightarrow> firstById xs = xs"
proof (induction xs)
  case Nil
  show ?case by simp
next
  case (Cons s ss)
  then have "filter (\<lambda>t. id' t \<noteq> id' s) ss = ss"
    by (auto simp: filter_id_conv image_iff)
  with Cons show ?case by simp
qed

lemma override_notin: "id' s \<notin> id' ` set batch \<Longrightarrow> override batch s = s"
proof -
  assume "id' s \<notin> id' ` set batch"
  then have "find (\<lambda>n. id' n = id' s) (rev batch) = None"
    by (auto simp: find_None_iff image_iff)
  then show ?thesis by (simp add: override_def)
qed

lemma override_in: "id' s \<in> id' ` set batch \<Longrightarrow> override batch s \<in> set batch"
  by (induction batch rule: rev_induct) (auto simp: override_snoc override_def)

lemma override_append:
  "override (xs @ ys) s = (if id' s \<in> id' ` set ys then override ys s else override xs s)"
  by (induction ys rule: rev_induct)
     (auto simp: override_snoc simp flip: append_assoc)

lemma override_same_id:
  "id' a = id' b \<Longrightarrow> id' a \<in> id' ` set batch \<Longrightarrow> override batch a = override batch b"
  by (induction batch rule: rev_induct) (auto simp: override_snoc)

lemma override_self: "distinct (map id' xs) \<Longrightarrow> s \<in> set xs \<Longrightarrow> override xs s = s"
proof (induction xs rule: rev_induct)
  case Nil
  then show ?case by simp
next
  case (snoc x xs)
  then show ?case by (auto simp: override_snoc)
qed

lemma mergeStations_positions:
  assumes "distinct (map id' prevStations)"
  shows "mergeStations prevStations data =
           map (override data) prevStations @
           map (override data) (firstById (filter (\<lambda>n. id' n \<notin> id' ` set prevStations) data))"
proof -
  let ?new = "firstById (filter (\<lambda>n. id' n \<notin> id' ` set prevStations) data)"
  have a: "map (override (prevStations @ data)) prevStations = map (override data) prevStations"
    using assms by (auto simp: override_append override_self override_notin)
  have "set ?new \<subseteq> set data" using firstById_subset by fastforce
  then have b: "map (override (prevStations @ data)) ?new = map (override data) ?new"
    by (auto simp: override_append)
  show ?thesis
    unfolding mergeStations_closed_form firstById_append
    using assms a b by (simp add: firstById_of_distinct)
qed

lemma mergeStations_distinct: "distinct (map id' (mergeStations prevStations data))"
proof -
  have "map id' (mergeStations prevStations data) = map id' (firstById (prevStations @ data))"
    by (simp add: mergeStations_closed_form override_id)
  then show ?thesis by (simp add: firstById_distinct)
qed

lemma mergeStations_ids:
  "id' ` set (mergeStations prevStations data) = id' ` set prevStations \<union> id' ` set data"
proof -
  have "map id' (mergeStations prevStations data) = map id' (firstById (prevStations @ data))"
    by (simp add: mergeStations_closed_form override_id)
  then have "set (map id' (mergeStations prevStations data)) = set (map id' (firstById (prevStations @ data)))"
    by simp
  then show ?thesis using firstById_ids [of "prevStations @ data"] by (simp add: image_Un)
qed

lemma mergeStations_fixed:
  assumes "r \<in> set (mergeStations prevStations data)"
  shows "override data r = r"
proof -
  from assms obtain s where r: "r = override (prevStations @ data) s"
    by (auto simp: mergeStations_closed_form)
  show ?thesis
  proof (cases "id' s \<in> id' ` set data")
    case True
    then have "override data r = override data s"
      using override_same_id [of r s data] r by (simp add: override_id)
    with True r show ?thesis by (simp add: override_append)
  next
    case False
    then show ?thesis using r by (simp add: override_notin override_id)
  qed
qed

lemma find_unique_id:
  "distinct (map id' xs) \<Longrightarrow> s \<in> set xs \<Longrightarrow> find (\<lambda>r. id' r = id' s) xs = Some s"
proof (induction xs)
  case Nil
  then show ?case by simp
next
  case (Cons x xs)
  then show ?case by (auto simp: image_iff)
qed

lemma find_Some_set: "find P xs = Some x \<Longrightarrow> x \<in> set xs \<and> P x"
  by (induction xs) (auto split: if_splits)

lemma override_find:
  "find (\<lambda>n. id' n = id' s) (rev batch) = Some n \<Longrightarrow> override batch s = n"
  by (simp add: override_def)

lemma mergeStations_lookup:
  assumes "distinct (map id' prevStations)"
  shows "find (\<lambda>r. id' r = i) (mergeStations prevStations data) =
           (case find (\<lambda>n. id' n = i) (rev data) of
              Some n \<Rightarrow> Some n
            | None \<Rightarrow> find (\<lambda>s. id' s = i) prevStations)"
proof (cases "find (\<lambda>n. id' n = i) (rev data)")
  case (Some n)
  then have n: "n \<in> set data" "id' n = i"
    using find_Some_set [of "\<lambda>n. id' n = i" "rev data" n] by simp_all
  then have "i \<in> id' ` set (mergeStations prevStations data)"
    by (auto simp: mergeStations_ids)
  then obtain r where r: "r \<in> set (mergeStations prevStations data)" "id' r = i"
    by auto
  have "override data r = n" using Some r(2) by (simp add: override_find)
  with r(1) have "r = n" by (simp add: mergeStations_fixed)
  with r have "find (\<lambda>r. id' r = id' n) (mergeStations prevStations data) = Some n"
    using find_unique_id [OF mergeStations_distinct] by blast
  with Some n show ?thesis by simp
next
  case None
  then have notin: "i \<notin> id' ` set data"
    by (auto simp: find_None_iff)
  show ?thesis
  proof (cases "i \<in> id' ` set prevStations")
    case True
    then obtain s where s: "s \<in> set prevStations" "id' s = i" by auto
    with notin have "override data s = s" by (simp add: override_notin)
    with s(1) have "s \<in> set (mergeStations prevStations data)"
      unfolding mergeStations_positions [OF assms] by force
    then have "find (\<lambda>r. id' r = id' s) (mergeStations prevStations data) = Some s"
      using find_unique_id [OF mergeStations_distinct] by blast
    moreover have "find (\<lambda>r. id' r = id' s) prevStations = Some s"
      using find_unique_id [OF assms s(1)] .
    ultimately show ?thesis using None s(2) by simp
  next
    case False
    with notin have "i \<notin> id' ` set (mergeStations prevStations data)"
      by (simp add: mergeStations_ids)
    then have "find (\<lambda>r. id' r = i) (mergeStations prevStations data) = None"
      by (auto simp: find_None_iff)
    moreover from False have "find (\<lambda>s. id' s = i) prevStations = None"
      by (auto simp: find_None_iff)
    ultimately show ?thesis using None by simp
  qed
qed

lemma mergeStations_retains:
  assumes "distinct (map id' prevStations)" and "s \<in> set prevStations"
    and "id' s \<notin> id' ` set data"
  shows "s \<in> set (mergeStations prevStations data)"
proof -
  from assms(3) have "override data s = s" by (simp add: override_notin)
  with assms(2) show ?thesis
    unfolding mergeStations_positions [OF assms(1)] by force
qed

subsection \<open>The claims about the merge\<close>

text \<open>
  C1. The merge after a station fetch is an insert-or-overwrite keyed by station id.
  For a current list with one entry per id and any incoming batch: the result has at
  most one entry per id; the entry found under an id is the last incoming record with
  that id when the batch has one (the incoming record wins), and otherwise the entry
  the current list had under it; every current station whose id the batch does not
  mention is still in the result.
\<close>

theorem mergeStations_upsert_by_id:
  assumes "distinct (map id' prevStations)"
  shows "distinct (map id' (mergeStations prevStations data)) \<and>
         (\<forall>i. find (\<lambda>r. id' r = i) (mergeStations prevStations data) =
                (case find (\<lambda>n. id' n = i) (rev data) of
                   Some n \<Rightarrow> Some n
                 | None \<Rightarrow> find (\<lambda>s. id' s = i) prevStations)) \<and>
         (\<forall>s \<in> set prevStations. id' s \<notin> id' ` set data \<longrightarrow>
                s \<in> set (mergeStations prevStations data))"
  using assms mergeStations_distinct mergeStations_lookup mergeStations_retains
  by blast

theorem mergeStations_upsert_by_id_witness:
  "distinct (map id' [station 1 ''Total'', station 2 ''Mobil'']) \<and>
   distinct (map id' (mergeStations [station 1 ''Total'', station 2 ''Mobil'']
                                    [station 2 ''Oando'', station 3 ''Shell''])) \<and>
   (\<forall>i. find (\<lambda>r. id' r = i) (mergeStations [station 1 ''Total'', station 2 ''Mobil'']
                                    [station 2 ''Oando'', station 3 ''Shell'']) =
          (case find (\<lambda>n. id' n = i) (rev [station 2 ''Oando'', station 3 ''Shell'']) of
             Some n \<Rightarrow> Some n
           | None \<Rightarrow> find (\<lambda>s. id' s = i) [station 1 ''Total'', station 2 ''Mobil''])) \<and>
   station 1 ''Total'' \<in> set (mergeStations [station 1 ''Total'', station 2 ''Mobil'']
                                    [station 2 ''Oando'', station 3 ''Shell''])"
proof -
  have h: "distinct (map id' [station 1 ''Total'', station 2 ''Mobil''])"
    by (simp add: station_def)
  have "id' (station 1 ''Total'') \<notin> id' ` set [station 2 ''Oando'', station 3 ''Shell'']"
    by (simp add: station_def)
  with h mergeStations_upsert_by_id [OF h, of "[station 2 ''Oando'', station 3 ''Shell'']"]
  show ?thesis by simp
qed

text \<open>
  C6. Merging the same batch a second time changes nothing:
  \<open>merge (merge S B) B = merge S B\<close>, as lists, for every list \<open>S\<close> and batch \<open>B\<close>.
\<close>

theorem mergeStations_idempotent:
  "mergeStations (mergeStations S B) B = mergeStations S B"
proof -
  let ?L = "mergeStations S B"
  have d: "distinct (map id' ?L)" by (rule mergeStations_distinct)
  have "filter (\<lambda>n. id' n \<notin> id' ` set ?L) B = []"
    by (auto simp: mergeStations_ids filter_empty_conv)
  moreover have "map (override B) ?L = ?L"
    by (rule map_idI) (rule mergeStations_fixed)
  ultimately show ?thesis using mergeStations_positions [OF d, of B] by simp
qed


text \<open>
  C10. For a current list with one entry per id, the merged list is the current list
  in its order, each station replaced in place by the record the batch leaves under
  its id, followed by the stations of ids the current list did not have, in the order
  in which the batch first mentions each id.
\<close>

theorem mergeStations_keeps_order:
  assumes "distinct (map id' prevStations)"
  shows "mergeStations prevStations data =
           map (override data) prevStations @
           map (override data) (firstById (filter (\<lambda>n. id' n \<notin> id' ` set prevStations) data))"
  using assms by (rule mergeStations_positions)

theorem mergeStations_keeps_order_witness:
  "distinct (map id' [station 1 ''Total'', station 2 ''Mobil'', station 3 ''Shell'']) \<and>
   mergeStations [station 1 ''Total'', station 2 ''Mobil'', station 3 ''Shell'']
                 [station 5 ''Conoil'', station 2 ''Oando'', station 4 ''NNPC'', station 5 ''Ardova'']
     = [station 1 ''Total'', station 2 ''Oando'', station 3 ''Shell'',
        station 5 ''Ardova'', station 4 ''NNPC'']"
proof -
  have h: "distinct (map id' [station 1 ''Total'', station 2 ''Mobil'', station 3 ''Shell''])"
    by (simp add: station_def)
  show ?thesis
    using h mergeStations_keeps_order [OF h,
        of "[station 5 ''Conoil'', station 2 ''Oando'', station 4 ''NNPC'', station 5 ''Ardova'']"]
    by (simp add: override_def station_def)
qed

section \<open>Properties of the station filter\<close>

lemma startsWith_iff: "startsWith s t \<longleftrightarrow> (\<exists>post. s = t @ post)"
  by (induction s t rule: startsWith.induct) auto

lemma String_includes_iff:
  "String_includes s t \<longleftrightarrow> (\<exists>pre post. s = pre @ t @ post)"
proof (induction s)
  case Nil
  show ?case by auto
next
  case (Cons c s)
  show ?case
  proof
    assume "String_includes (c # s) t"
    then consider "startsWith (c # s) t" | "String_includes s t" by auto
    then show "\<exists>pre post. c # s = pre @ t @ post"
    proof cases
      case 1
      then obtain post where "c # s = t @ post" by (auto simp: startsWith_iff)
      then have "c # s = [] @ t @ post" by simp
      then show ?thesis by blast
    next
      case 2
      with Cons obtain pre post where "s = pre @ t @ post" by auto
      then have "c # s = (c # pre) @ t @ post" by simp
      then show ?thesis by blast
    qed
  next
    assume "\<exists>pre post. c # s = pre @ t @ post"
    then obtain pre post where eq: "c # s = pre @ t @ post" by auto
    show "String_includes (c # s) t"
    proof (cases pre)
      case Nil
      with eq have "startsWith (c # s) t" by (auto simp: startsWith_iff)
      then show ?thesis by simp
    next
      case (Cons d pre')
      with eq have "s = pre' @ t @ post" by simp
      with Cons.IH have "String_includes s t" by blast
      then show ?thesis by simp
    qed
  qed
qed

lemma trim_empty_iff: "trim s = [] \<longleftrightarrow> (\<forall>c \<in> set s. is_whitespace c)"
proof
  assume "trim s = []"
  then have all: "\<forall>c \<in> set (dropWhile is_whitespace s). is_whitespace c"
    by (simp add: trim_def dropWhile_eq_Nil_conv)
  have "dropWhile is_whitespace s = []"
  proof (rule ccontr)
    assume ne: "dropWhile is_whitespace s \<noteq> []"
    then have "\<not> is_whitespace (hd (dropWhile is_whitespace s))"
      by (rule hd_dropWhile)
    moreover from ne have "hd (dropWhile is_whitespace s) \<in> set (dropWhile is_whitespace s)"
      by simp
    ultimately show False using all by blast
  qed
  then show "\<forall>c \<in> set s. is_whitespace c"
    by (simp add: dropWhile_eq_Nil_conv)
next
  assume "\<forall>c \<in> set s. is_whitespace c"
  then have "dropWhile is_whitespace s = []"
    by (simp add: dropWhile_eq_Nil_conv)
  then show "trim s = []" by (simp only: trim_def) simp
qed

text \<open>
  C8, as the code has it. The filter is a function of the station list and the term.
  A term that is empty or consists of whitespace only (the guard is
  \<open>!filterTerm.trim()\<close>) gives the station list back as it is; any other term keeps,
  in order, exactly the stations whose lower-cased name contains the lower-cased term
  as a contiguous substring.
\<close>

theorem filteredStations_blank_or_substring:
  "filteredStations stationList filterTerm =
     (if \<forall>c \<in> set filterTerm. is_whitespace c then stationList
      else filter (\<lambda>s. \<exists>pre post. toLowerCase (name s) = pre @ toLowerCase filterTerm @ post)
             stationList)"
  by (simp add: filteredStations_def trim_empty_iff String_includes_iff)

theorem filteredStations_blank_or_substring_witness:
  "\<not> is_whitespace (CHR ''s'') \<and>
   filteredStations [station 1 ''Shell'', station 2 ''Mobil'', station 3 ''Total Shell Plaza''] ''sHe'' =
     filter (\<lambda>s. \<exists>pre post. toLowerCase (name s) = pre @ toLowerCase ''sHe'' @ post)
       [station 1 ''Shell'', station 2 ''Mobil'', station 3 ''Total Shell Plaza''] \<and>
   filteredStations [station 1 ''Shell'', station 2 ''Mobil'', station 3 ''Total Shell Plaza''] ''sHe'' =
     [station 1 ''Shell'', station 3 ''Total Shell Plaza''] \<and>
   is_whitespace (CHR '' '') \<and>
   filteredStations [station 1 ''Shell'', station 2 ''Mobil''] '' '' =
     [station 1 ''Shell'', station 2 ''Mobil'']"
proof -
  have a': "\<not> is_whitespace (CHR ''s'')" and b': "is_whitespace (CHR '' '')"
    by (simp_all add: is_whitespace_def)
  from a' have a: "\<not> (\<forall>c \<in> set ''sHe''. is_whitespace c)" by simp
  from b' have b: "\<forall>c \<in> set '' ''. is_whitespace c" by simp
  have c: "filteredStations [station 1 ''Shell'', station 2 ''Mobil'', station 3 ''Total Shell Plaza''] ''sHe'' =
     [station 1 ''Shell'', station 3 ''Total Shell Plaza'']"
    by code_simp
  note s1 = filteredStations_blank_or_substring
    [of "[station 1 ''Shell'', station 2 ''Mobil'', station 3 ''Total Shell Plaza'']" "''sHe''"]
  note s2 = filteredStations_blank_or_substring
    [of "[station 1 ''Shell'', station 2 ''Mobil'']" "'' ''"]
  from s1 have d: "filteredStations [station 1 ''Shell'', station 2 ''Mobil'', station 3 ''Total Shell Plaza''] ''sHe'' =
     filter (\<lambda>s. \<exists>pre post. toLowerCase (name s) = pre @ toLowerCase ''sHe'' @ post)
       [station 1 ''Shell'', station 2 ''Mobil'', station 3 ''Total Shell Plaza'']"
    by (simp only: if_not_P [OF a])
  from s2 have e: "filteredStations [station 1 ''Shell'', station 2 ''Mobil''] '' '' =
     [station 1 ''Shell'', station 2 ''Mobil'']"
    by (simp only: if_P [OF b])
  from a' b' c d e show ?thesis by blast
qed

text \<open>
  The claim as the specification words it fails on a term of one space: the term is
  not empty, the name \<open>Shell\<close> does not contain a space, and the station is kept.
\<close>

theorem filteredStations_space_term_counterexample:
  "'' '' \<noteq> [] \<and>
   \<not> String_includes (toLowerCase ''Shell'') (toLowerCase '' '') \<and>
   filteredStations [station 1 ''Shell''] '' '' = [station 1 ''Shell'']"
  by code_simp

section \<open>Properties of the route bounds\<close>

lemma scan_finite:
  "scan \<lparr>minLon = Fin a, maxLon = Fin b, minLat = Fin c, maxLat = Fin d\<rparr> (finite_coord p) =
     \<lparr>minLon = Fin (min (fst p) a), maxLon = Fin (max (fst p) b),
      minLat = Fin (min (snd p) c), maxLat = Fin (max (snd p) d)\<rparr>"
  by (simp add: scan_def Let_def finite_coord_def js_gt_def min_def max_def)

lemma foldl_scan_finite:
  "foldl scan \<lparr>minLon = Fin a, maxLon = Fin b, minLat = Fin c, maxLat = Fin d\<rparr>
          (map finite_coord pts) =
     \<lparr>minLon = Fin (fold min (map fst pts) a), maxLon = Fin (fold max (map fst pts) b),
      minLat = Fin (fold min (map snd pts) c), maxLat = Fin (fold max (map snd pts) d)\<rparr>"
proof (induction pts arbitrary: a b c d)
  case Nil
  show ?case by simp
next
  case (Cons p pts)
  show ?case by (simp add: scan_finite Cons.IH)
qed

lemma reducer_finite:
  "reducer \<lparr>ne = (Fin b, Fin d), sw = (Fin a, Fin c)\<rparr> (finite_coord p) =
     \<lparr>ne = (Fin (max (fst p) b), Fin (max (snd p) d)),
      sw = (Fin (min (fst p) a), Fin (min (snd p) c))\<rparr>"
  by (simp add: reducer_def finite_coord_def Math_max_def Math_min_def min_def max_def)

lemma foldl_reducer_finite:
  "foldl reducer \<lparr>ne = (Fin b, Fin d), sw = (Fin a, Fin c)\<rparr> (map finite_coord pts) =
     \<lparr>ne = (Fin (fold max (map fst pts) b), Fin (fold max (map snd pts) d)),
      sw = (Fin (fold min (map fst pts) a), Fin (fold min (map snd pts) c))\<rparr>"
proof (induction pts arbitrary: a b c d)
  case Nil
  show ?case by simp
next
  case (Cons p pts)
  show ?case by (simp add: reducer_finite Cons.IH)
qed

lemma fold_min_first: "fold min (x # xs) (x::real) = Min (set (x # xs))"
  unfolding Min.set_eq_fold by simp

lemma fold_max_first: "fold max (x # xs) (x::real) = Max (set (x # xs))"
  unfolding Max.set_eq_fold by simp

lemma handleFindTrip_bounds_finite:
  assumes "pts \<noteq> []"
  shows "handleFindTrip_bounds (map finite_coord pts) =
           Inr ((Fin (Min (fst ` set pts)), Fin (Min (snd ` set pts))),
                (Fin (Max (fst ` set pts)), Fin (Max (snd ` set pts))))"
proof -
  from assms obtain p ps where pts: "pts = p # ps" by (cases pts) auto
  have "foldl scan \<lparr>minLon = Fin (fst p), maxLon = Fin (fst p),
                     minLat = Fin (snd p), maxLat = Fin (snd p)\<rparr> (map finite_coord (p # ps)) =
        \<lparr>minLon = Fin (Min (set (map fst (p # ps)))), maxLon = Fin (Max (set (map fst (p # ps)))),
         minLat = Fin (Min (set (map snd (p # ps)))), maxLat = Fin (Max (set (map snd (p # ps))))\<rparr>"
    unfolding foldl_scan_finite
    using fold_min_first [of "fst p" "map fst ps"] fold_max_first [of "fst p" "map fst ps"]
      fold_min_first [of "snd p" "map snd ps"] fold_max_first [of "snd p" "map snd ps"]
    by simp
  then show ?thesis
    unfolding pts by (simp add: handleFindTrip_bounds_def finite_coord_def)
qed

lemma fetchRoute_bounds_finite:
  assumes "pts \<noteq> []"
  shows "fetchRoute_bounds (map finite_coord pts) =
           Inr \<lparr>ne = (Fin (Max (fst ` set pts)), Fin (Max (snd ` set pts))),
                sw = (Fin (Min (fst ` set pts)), Fin (Min (snd ` set pts)))\<rparr>"
proof -
  from assms obtain p ps where pts: "pts = p # ps" by (cases pts) auto
  have "foldl reducer \<lparr>ne = (Fin (fst p), Fin (snd p)), sw = (Fin (fst p), Fin (snd p))\<rparr>
          (map finite_coord (p # ps)) =
        \<lparr>ne = (Fin (Max (set (map fst (p # ps)))), Fin (Max (set (map snd (p # ps))))),
         sw = (Fin (Min (set (map fst (p # ps)))), Fin (Min (set (map snd (p # ps)))))\<rparr>"
    unfolding foldl_reducer_finite
    using fold_min_first [of "fst p" "map fst ps"] fold_max_first [of "fst p" "map fst ps"]
      fold_min_first [of "snd p" "map snd ps"] fold_max_first [of "snd p" "map snd ps"]
    by simp
  then show ?thesis
    unfolding pts by (simp add: fetchRoute_bounds_def finite_coord_def)
qed

text \<open>
  C3. On a sequence of at least two coordinates with finite entries, both scans (the
  \<open>forEach\<close> of \<open>home.tsx\<close> and the \<open>reduce\<close> of \<open>addStation.tsx\<close>) return the least and
  the greatest longitude and latitude over all points, and the south-west corner is
  below the north-east corner on each axis. The instance below it is the sequence
  \<open>[[0,0],[2,3],[-1,5]]\<close>, with south-west \<open>[-1,0]\<close> and north-east \<open>[2,5]\<close>.
\<close>

theorem route_bounds_are_extrema:
  assumes "2 \<le> length pts"
  shows "handleFindTrip_bounds (map finite_coord pts) =
           Inr ((Fin (Min (fst ` set pts)), Fin (Min (snd ` set pts))),
                (Fin (Max (fst ` set pts)), Fin (Max (snd ` set pts)))) \<and>
         fetchRoute_bounds (map finite_coord pts) =
           Inr \<lparr>ne = (Fin (Max (fst ` set pts)), Fin (Max (snd ` set pts))),
                sw = (Fin (Min (fst ` set pts)), Fin (Min (snd ` set pts)))\<rparr> \<and>
         Min (fst ` set pts) \<le> Max (fst ` set pts) \<and>
         Min (snd ` set pts) \<le> Max (snd ` set pts)"
proof -
  from assms have ne: "pts \<noteq> []" by auto
  then have "Min (fst ` set pts) \<le> Max (fst ` set pts)" "Min (snd ` set pts) \<le> Max (snd ` set pts)"
    by (simp_all add: Min_le_iff)
  with ne show ?thesis
    by (simp add: handleFindTrip_bounds_finite fetchRoute_bounds_finite)
qed

theorem route_bounds_are_extrema_witness:
  "2 \<le> length [(0, 0), (2, 3), (-1, 5) :: real \<times> real] \<and>
   handleFindTrip_bounds (map finite_coord [(0, 0), (2, 3), (-1, 5)]) =
     Inr ((Fin (-1), Fin 0), (Fin 2, Fin 5)) \<and>
   fetchRoute_bounds (map finite_coord [(0, 0), (2, 3), (-1, 5)]) =
     Inr \<lparr>ne = (Fin 2, Fin 5), sw = (Fin (-1), Fin 0)\<rparr>"
proof -
  have h: "2 \<le> length [(0, 0), (2, 3), (-1, 5) :: real \<times> real]" by simp
  show ?thesis
    using h route_bounds_are_extrema [OF h] by simp
qed

text \<open>
  C4, as the code has it. Neither scan checks the length of the sequence or the
  finiteness of its entries. The scan raises exactly when the sequence is empty (the
  TypeError of reading \<open>coords[0][0]\<close>), and then \<open>handleFindTrip\<close> shows the error
  in an alert and hands no bounds to the camera; a sequence of one coordinate yields
  the box whose two corners are that coordinate.
\<close>

theorem route_bounds_raise_only_on_empty:
  "((\<exists>e. handleFindTrip_bounds coords = Inl e) \<longleftrightarrow> coords = []) \<and>
   ((\<exists>e. fetchRoute_bounds coords = Inl e) \<longleftrightarrow> coords = []) \<and>
   handleFindTrip_bounds [] = Inl TypeError \<and>
   fetchRoute_bounds [] = Inl TypeError \<and>
   handleFindTrip_bounds [c] = Inr (c, c) \<and>
   fetchRoute_bounds [c] = Inr \<lparr>ne = c, sw = c\<rparr> \<and>
   alerts (handleFindTrip_settle (Json ''Ok'' (\<lparr>coordinates = [], legs = l # ls\<rparr> # rs)) s) =
     alerts s @ [(''Error Finding Route'', TypeError)] \<and>
   camera (handleFindTrip_settle (Json ''Ok'' (\<lparr>coordinates = [], legs = l # ls\<rparr> # rs)) s) =
     camera s"
proof -
  have irrefl: "\<not> js_lt x x" for x
    by (cases x) simp_all
  have "scan \<lparr>minLon = fst c, maxLon = fst c, minLat = snd c, maxLat = snd c\<rparr> c =
        \<lparr>minLon = fst c, maxLon = fst c, minLat = snd c, maxLat = snd c\<rparr>"
    by (simp add: scan_def Let_def js_gt_def irrefl)
  then have one: "handleFindTrip_bounds [c] = Inr (c, c)"
    by (simp add: handleFindTrip_bounds_def)
  have "Math_max x x = x" "Math_min x x = x" for x
    by (simp_all add: Math_max_def Math_min_def irrefl)
  then have one': "fetchRoute_bounds [c] = Inr \<lparr>ne = c, sw = c\<rparr>"
    by (simp add: fetchRoute_bounds_def reducer_def)
  have iff: "((\<exists>e. handleFindTrip_bounds coords = Inl e) \<longleftrightarrow> coords = [])"
    "((\<exists>e. fetchRoute_bounds coords = Inl e) \<longleftrightarrow> coords = [])"
    by (cases coords; simp add: handleFindTrip_bounds_def fetchRoute_bounds_def Let_def)+
  have "handleFindTrip_bounds [] = Inl TypeError" "fetchRoute_bounds [] = Inl TypeError"
    by (simp_all add: handleFindTrip_bounds_def fetchRoute_bounds_def)
  moreover have "alerts (handleFindTrip_settle (Json ''Ok'' (\<lparr>coordinates = [], legs = l # ls\<rparr> # rs)) s) =
      alerts s @ [(''Error Finding Route'', TypeError)]"
    "camera (handleFindTrip_settle (Json ''Ok'' (\<lparr>coordinates = [], legs = l # ls\<rparr> # rs)) s) = camera s"
    by (simp_all add: handleFindTrip_settle_def handleFindTrip_try_def handleFindTrip_bounds_def)
  ultimately show ?thesis using iff one one' by simp
qed

text \<open>
  The claim as the specification words it fails: a sequence of one coordinate, and a
  sequence with an infinite entry, both yield bounds.
\<close>

theorem route_bounds_no_validation_counterexample:
  "length [(Fin 3, Fin 6)] < 2 \<and>
   handleFindTrip_bounds [(Fin 3, Fin 6)] = Inr ((Fin 3, Fin 6), (Fin 3, Fin 6)) \<and>
   fetchRoute_bounds [(Fin 3, Fin 6)] = Inr \<lparr>ne = (Fin 3, Fin 6), sw = (Fin 3, Fin 6)\<rparr> \<and>
   \<not> isFinite PosInf \<and>
   handleFindTrip_bounds [(Fin 0, Fin 0), (PosInf, Fin 1)] = Inr ((Fin 0, Fin 0), (PosInf, Fin 1)) \<and>
   fetchRoute_bounds [(Fin 0, Fin 0), (PosInf, Fin 1)] =
     Inr \<lparr>ne = (PosInf, Fin 1), sw = (Fin 0, Fin 0)\<rparr>"
  by (simp add: handleFindTrip_bounds_def scan_def Let_def js_gt_def
      fetchRoute_bounds_def reducer_def Math_max_def Math_min_def)

section \<open>Properties of the handlers\<close>

subsection \<open>A failed station fetch\<close>

text \<open>
  C7. When the backend call fails, by an error in the response or by rejecting, the
  station list is what it was before; the failure is written to the console and
  nothing else happens: no further backend call is made, no timer is set, no alert is
  shown. The only other change is that the loading flag is lowered.
\<close>

theorem fetch_failure_keeps_stations:
  assumes "res = ErrorResponse message \<or> res = Rejected message"
  shows "fetchStationsForRegion_settle res s =
           s\<lparr>console := console s @ [''Error fetching stations: '' @ message],
             isLoading := False\<rparr> \<and>
         stations (fetchStationsForRegion_settle res s) = stations s \<and>
         invoked (fetchStationsForRegion_settle res s) = invoked s \<and>
         debouncedFetch (fetchStationsForRegion_settle res s) = debouncedFetch s \<and>
         alerts (fetchStationsForRegion_settle res s) = alerts s"
  using assms
  by (auto simp: fetchStationsForRegion_settle_def fetchStationsForRegion_try_def)

theorem fetch_failure_keeps_stations_witness:
  "(Rejected ''Network request failed'' = ErrorResponse ''Network request failed'' \<or>
    Rejected ''Network request failed'' = Rejected ''Network request failed'') \<and>
   stations (fetchStationsForRegion_settle (Rejected ''Network request failed'')
              (initialState\<lparr>stations := [station 1 ''Shell'', station 2 ''Mobil'']\<rparr>)) =
     [station 1 ''Shell'', station 2 ''Mobil''] \<and>
   console (fetchStationsForRegion_settle (Rejected ''Network request failed'')
              (initialState\<lparr>stations := [station 1 ''Shell'', station 2 ''Mobil'']\<rparr>)) =
     [''Error fetching stations: Network request failed''] \<and>
   invoked (fetchStationsForRegion_settle (Rejected ''Network request failed'')
              (initialState\<lparr>stations := [station 1 ''Shell'', station 2 ''Mobil'']\<rparr>)) = []"
proof -
  have h: "Rejected ''Network request failed'' = ErrorResponse ''Network request failed'' \<or>
           Rejected ''Network request failed'' = Rejected ''Network request failed''"
    by simp
  show ?thesis
    using fetch_failure_keeps_stations [OF h,
        of "initialState\<lparr>stations := [station 1 ''Shell'', station 2 ''Mobil'']\<rparr>"]
    by (simp add: initialState_def)
qed

subsection \<open>Timers\<close>

lemma timers_fetch:
  "invoked (timers t s) =
     (case debouncedFetch s of
        None \<Rightarrow> invoked s
      | Some (deadline, r) \<Rightarrow>
          if deadline \<le> t then invoked s @ [(Region.latitude r, Region.longitude r)]
          else invoked s)"
  "debouncedFetch (timers t s) =
     (case debouncedFetch s of
        None \<Rightarrow> None
      | Some (deadline, r) \<Rightarrow> if deadline \<le> t then None else Some (deadline, r))"
  by (auto simp: timers_def debounce_due_def fetchStationsForRegion_begin_def
      updateLocationName_begin_def Let_def split: option.splits)

lemma timers_name:
  "geocoded (timers t s) =
     (case debouncedUpdateLocationName s of
        None \<Rightarrow> geocoded s
      | Some (deadline, r) \<Rightarrow>
          if deadline \<le> t then geocoded s @ [(Region.latitude r, Region.longitude r)]
          else geocoded s)"
  "debouncedUpdateLocationName (timers t s) =
     (case debouncedUpdateLocationName s of
        None \<Rightarrow> None
      | Some (deadline, r) \<Rightarrow> if deadline \<le> t then None else Some (deadline, r))"
  "isTripModeActive (timers t s) = isTripModeActive s"
  by (auto simp: timers_def debounce_due_def fetchStationsForRegion_begin_def
      updateLocationName_begin_def Let_def split: option.splits)

lemma onRegionDidChange_fetch:
  "invoked (onRegionDidChange t c s) = invoked s"
  "debouncedFetch (onRegionDidChange t c s) = Some (t + 400, regionOf c)"
  by (simp_all add: onRegionDidChange_def debounce_call_def Let_def)

lemma onRegionDidChange_name:
  "geocoded (onRegionDidChange t c s) = geocoded s"
  "isTripModeActive (onRegionDidChange t c s) = isTripModeActive s"
  "\<not> isTripModeActive s \<Longrightarrow>
     debouncedUpdateLocationName (onRegionDidChange t c s) = Some (t + 500, regionOf c)"
  by (simp_all add: onRegionDidChange_def debounce_call_def Let_def)

lemma regionChanges_Cons:
  "regionChanges ((t, c) # changes) s = regionChanges changes (onRegionDidChange t c (timers t s))"
  by (simp add: regionChanges_def)

lemma regionChanges_fetch_pending:
  assumes "gapsBelow 400 (t0 # map fst changes)"
    and "debouncedFetch s = Some (t0 + 400, r0)"
  shows "invoked (regionChanges changes s) = invoked s \<and>
         debouncedFetch (regionChanges changes s) =
           Some (last (t0 # map fst changes) + 400, last (r0 # map (\<lambda>x. regionOf (snd x)) changes))"
  using assms
proof (induction changes arbitrary: s t0 r0)
  case Nil
  then show ?case by (simp add: regionChanges_def)
next
  case (Cons x changes)
  obtain t c where x: "x = (t, c)" by (cases x)
  let ?s = "onRegionDidChange t c (timers t s)"
  from Cons.prems x have gap: "t0 \<le> t" "t - t0 < 400" and rest: "gapsBelow 400 (t # map fst changes)"
    by simp_all
  from gap have "\<not> t0 + 400 \<le> t" by simp
  with Cons.prems(2) have quiet: "invoked (timers t s) = invoked s"
    by (simp add: timers_fetch)
  have "debouncedFetch ?s = Some (t + 400, regionOf c)"
    by (rule onRegionDidChange_fetch)
  from Cons.IH [OF rest this] quiet show ?case
    by (simp add: x regionChanges_Cons onRegionDidChange_fetch)
qed

lemma regionChanges_fetch:
  assumes "changes \<noteq> []" and "gapsBelow 400 (map fst changes)"
    and "debouncedFetch s = None"
  shows "invoked (regionChanges changes s) = invoked s \<and>
         debouncedFetch (regionChanges changes s) =
           Some (fst (last changes) + 400, regionOf (snd (last changes)))"
proof -
  from assms(1) obtain t c rest where ch: "changes = (t, c) # rest"
    by (cases changes) auto
  let ?s = "onRegionDidChange t c (timers t s)"
  have pend: "debouncedFetch ?s = Some (t + 400, regionOf c)"
    by (rule onRegionDidChange_fetch)
  have quiet: "invoked ?s = invoked s"
    using assms(3) by (simp add: onRegionDidChange_fetch timers_fetch)
  from assms(2) ch have "gapsBelow 400 (t # map fst rest)" by simp
  from regionChanges_fetch_pending [OF this pend] quiet
  have "invoked (regionChanges changes s) = invoked s"
    and "debouncedFetch (regionChanges changes s) =
           Some (last (t # map fst rest) + 400, last (regionOf c # map (\<lambda>x. regionOf (snd x)) rest))"
    by (simp_all add: ch regionChanges_Cons)
  moreover have "last (t # map fst rest) = fst (last changes)"
    unfolding ch by (simp add: last_map)
  moreover have "last (regionOf c # map (\<lambda>x. regionOf (snd x)) rest) = regionOf (snd (last changes))"
    unfolding ch by (simp add: last_map)
  ultimately show ?thesis by simp
qed

lemma regionChanges_trip: "isTripModeActive (regionChanges changes s) = isTripModeActive s"
proof (induction changes arbitrary: s)
  case Nil
  show ?case by (simp add: regionChanges_def)
next
  case (Cons x changes)
  obtain t c where x: "x = (t, c)" by (cases x)
  show ?case
    by (simp add: x regionChanges_Cons Cons.IH onRegionDidChange_name timers_name)
qed

lemma regionChanges_name_pending:
  assumes "gapsBelow 500 (t0 # map fst changes)"
    and "debouncedUpdateLocationName s = Some (t0 + 500, r0)"
    and "\<not> isTripModeActive s"
  shows "geocoded (regionChanges changes s) = geocoded s \<and>
         debouncedUpdateLocationName (regionChanges changes s) =
           Some (last (t0 # map fst changes) + 500, last (r0 # map (\<lambda>x. regionOf (snd x)) changes))"
  using assms
proof (induction changes arbitrary: s t0 r0)
  case Nil
  then show ?case by (simp add: regionChanges_def)
next
  case (Cons x changes)
  obtain t c where x: "x = (t, c)" by (cases x)
  let ?s = "onRegionDidChange t c (timers t s)"
  from Cons.prems x have gap: "t0 \<le> t" "t - t0 < 500" and rest: "gapsBelow 500 (t # map fst changes)"
    by simp_all
  from gap have "\<not> t0 + 500 \<le> t" by simp
  with Cons.prems(2) have quiet: "geocoded (timers t s) = geocoded s"
    by (simp add: timers_name)
  have idle: "\<not> isTripModeActive (timers t s)"
    using Cons.prems(3) by (simp add: timers_name)
  then have "debouncedUpdateLocationName ?s = Some (t + 500, regionOf c)"
    by (rule onRegionDidChange_name)
  moreover from idle have "\<not> isTripModeActive ?s"
    by (simp add: onRegionDidChange_name)
  ultimately show ?case
    using Cons.IH [OF rest, of ?s "regionOf c"] quiet
    by (simp add: x regionChanges_Cons onRegionDidChange_name)
qed

lemma regionChanges_name:
  assumes "changes \<noteq> []" and "gapsBelow 500 (map fst changes)"
    and "debouncedUpdateLocationName s = None" and "\<not> isTripModeActive s"
  shows "geocoded (regionChanges changes s) = geocoded s \<and>
         debouncedUpdateLocationName (regionChanges changes s) =
           Some (fst (last changes) + 500, regionOf (snd (last changes)))"
proof -
  from assms(1) obtain t c rest where ch: "changes = (t, c) # rest"
    by (cases changes) auto
  let ?s = "onRegionDidChange t c (timers t s)"
  have idle: "\<not> isTripModeActive (timers t s)"
    using assms(4) by (simp add: timers_name)
  then have pend: "debouncedUpdateLocationName ?s = Some (t + 500, regionOf c)"
    by (rule onRegionDidChange_name)
  from idle have idle': "\<not> isTripModeActive ?s"
    by (simp add: onRegionDidChange_name)
  have quiet: "geocoded ?s = geocoded s"
    using assms(3) by (simp add: onRegionDidChange_name timers_name)
  from assms(2) ch have "gapsBelow 500 (t # map fst rest)" by simp
  from regionChanges_name_pending [OF this pend idle'] quiet
  have "geocoded (regionChanges changes s) = geocoded s"
    and "debouncedUpdateLocationName (regionChanges changes s) =
           Some (last (t # map fst rest) + 500, last (regionOf c # map (\<lambda>x. regionOf (snd x)) rest))"
    by (simp_all add: ch regionChanges_Cons)
  moreover have "last (t # map fst rest) = fst (last changes)"
    unfolding ch by (simp add: last_map)
  moreover have "last (regionOf c # map (\<lambda>x. regionOf (snd x)) rest) = regionOf (snd (last changes))"
    unfolding ch by (simp add: last_map)
  ultimately show ?thesis by simp
qed

subsection \<open>Debounced fetching\<close>

text \<open>
  C2. Let viewport changes arrive, one after the other, each less than the debounce
  window after the one before, at a screen whose timer is idle. From the last change
  on, as long as the window has not elapsed no fetch has been issued; once it has
  elapsed exactly one has been issued, for the region of the last change, and no timer
  is pending. The window is 400 ms for the station fetch. The same holds, with a
  window of 500 ms, for the refresh of the location name (which is only requested
  outside trip mode).
\<close>

theorem debounce_one_fetch_for_last_region:
  assumes "changes \<noteq> []" and "fst (last changes) \<le> t"
  shows "(gapsBelow 400 (map fst changes) \<and> debouncedFetch s = None \<longrightarrow>
            invoked (timers t (regionChanges changes s)) =
              (if t < fst (last changes) + 400 then invoked s
               else invoked s @ [(snd (snd (last changes)), fst (snd (last changes)))]) \<and>
            debouncedFetch (timers t (regionChanges changes s)) =
              (if t < fst (last changes) + 400
               then Some (fst (last changes) + 400, regionOf (snd (last changes)))
               else None)) \<and>
         (gapsBelow 500 (map fst changes) \<and> debouncedUpdateLocationName s = None \<and>
            \<not> isTripModeActive s \<longrightarrow>
            geocoded (timers t (regionChanges changes s)) =
              (if t < fst (last changes) + 500 then geocoded s
               else geocoded s @ [(snd (snd (last changes)), fst (snd (last changes)))]) \<and>
            debouncedUpdateLocationName (timers t (regionChanges changes s)) =
              (if t < fst (last changes) + 500
               then Some (fst (last changes) + 500, regionOf (snd (last changes)))
               else None))"
proof (intro conjI impI)
  assume a: "gapsBelow 400 (map fst changes) \<and> debouncedFetch s = None"
  note f = regionChanges_fetch [OF assms(1) conjunct1 [OF a] conjunct2 [OF a]]
  from f show "invoked (timers t (regionChanges changes s)) =
      (if t < fst (last changes) + 400 then invoked s
       else invoked s @ [(snd (snd (last changes)), fst (snd (last changes)))])"
    by (auto simp: timers_fetch regionOf_def)
  from f show "debouncedFetch (timers t (regionChanges changes s)) =
      (if t < fst (last changes) + 400
       then Some (fst (last changes) + 400, regionOf (snd (last changes))) else None)"
    by (auto simp: timers_fetch)
next
  assume a: "gapsBelow 500 (map fst changes) \<and> debouncedUpdateLocationName s = None \<and>
             \<not> isTripModeActive s"
  then have a1: "gapsBelow 500 (map fst changes)" and a2: "debouncedUpdateLocationName s = None"
    and a3: "\<not> isTripModeActive s" by simp_all
  note g = regionChanges_name [OF assms(1) a1 a2 a3]
  from g show "geocoded (timers t (regionChanges changes s)) =
      (if t < fst (last changes) + 500 then geocoded s
       else geocoded s @ [(snd (snd (last changes)), fst (snd (last changes)))])"
    by (auto simp: timers_name regionOf_def)
  from g show "debouncedUpdateLocationName (timers t (regionChanges changes s)) =
      (if t < fst (last changes) + 500
       then Some (fst (last changes) + 500, regionOf (snd (last changes))) else None)"
    by (auto simp: timers_name)
qed

theorem debounce_one_fetch_for_last_region_witness:
  "[(0 :: nat, (Fin 3, Fin 6)), (150, (Fin 4, Fin 7)), (500, (Fin 5, Fin 8))] \<noteq> [] \<and>
   fst (last [(0 :: nat, (Fin 3, Fin 6)), (150, (Fin 4, Fin 7)), (500, (Fin 5, Fin 8))]) \<le> 900 \<and>
   gapsBelow 400 (map fst [(0, (Fin 3, Fin 6)), (150, (Fin 4, Fin 7)), (500, (Fin 5, Fin 8))]) \<and>
   gapsBelow 500 (map fst [(0, (Fin 3, Fin 6)), (150, (Fin 4, Fin 7)), (500, (Fin 5, Fin 8))]) \<and>
   debouncedFetch initialState = None \<and>
   debouncedUpdateLocationName initialState = None \<and>
   \<not> isTripModeActive initialState \<and>
   invoked (timers 900 (regionChanges
      [(0, (Fin 3, Fin 6)), (150, (Fin 4, Fin 7)), (500, (Fin 5, Fin 8))] initialState)) =
     [(Fin 8, Fin 5)] \<and>
   geocoded (timers 900 (regionChanges
      [(0, (Fin 3, Fin 6)), (150, (Fin 4, Fin 7)), (500, (Fin 5, Fin 8))] initialState)) = []"
proof -
  let ?changes = "[(0 :: nat, (Fin 3, Fin 6)), (150, (Fin 4, Fin 7)), (500, (Fin 5, Fin 8))]"
  have h1: "?changes \<noteq> []" by simp
  have h2: "fst (last ?changes) \<le> 900" by simp
  have h3: "gapsBelow 400 (map fst ?changes)" "gapsBelow 500 (map fst ?changes)" by simp_all
  have h4: "debouncedFetch initialState = None" "debouncedUpdateLocationName initialState = None"
    "\<not> isTripModeActive initialState" "invoked initialState = []" "geocoded initialState = []"
    by (simp_all add: initialState_def)
  from debounce_one_fetch_for_last_region [OF h1 h2, of initialState] h3 h4
  have "invoked (timers 900 (regionChanges ?changes initialState)) = [(Fin 8, Fin 5)]"
    and "geocoded (timers 900 (regionChanges ?changes initialState)) = []"
    by simp_all
  with h1 h2 h3 h4 show ?thesis by blast
qed

subsection \<open>Trip mode\<close>

lemma handleFindTrip_route_state:
  assumes "legs r \<noteq> []"
  shows "stations (handleFindTrip_settle (Json ''Ok'' (r # rs)) s) = [] \<and>
         route (handleFindTrip_settle (Json ''Ok'' (r # rs)) s) =
           Some \<lparr>geometry = coordinates r, bounds = None\<rparr> \<and>
         isTripModeActive (handleFindTrip_settle (Json ''Ok'' (r # rs)) s) \<and>
         \<not> isTripLoading (handleFindTrip_settle (Json ''Ok'' (r # rs)) s)"
proof -
  from assms obtain l ls where "legs r = l # ls" by (cases "legs r") auto
  then show ?thesis
    by (auto simp: handleFindTrip_settle_def handleFindTrip_try_def cameraRef_call_def Let_def
        split: sum.splits option.splits prod.splits)
qed

lemma cancelTripMode_state:
  "route (cancelTripMode now s) = None"
  "\<not> isTripModeActive (cancelTripMode now s)"
  "invoked (cancelTripMode now s) = invoked s"
  "stations (cancelTripMode now s) = stations s"
  "debouncedFetch (cancelTripMode now s) =
     (case currentRegion s of
        None \<Rightarrow> debouncedFetch s
      | Some region \<Rightarrow> Some (now + 400, region))"
  by (simp_all add: cancelTripMode_def cameraRef_call_def debounce_call_def Let_def
      split: option.splits)

text \<open>
  C5, as the code has it. A response of the routing service with code \<open>Ok\<close> and a first
  route turns trip mode on, empties the station list and installs the route overlay.
  \<open>cancelTripMode\<close> turns trip mode off and clears the overlay; it issues no fetch
  itself: when a region is known it calls the debounced fetch with that region, so
  that, if no other call resets the timer, the fetch is issued once 400 ms have
  elapsed and not before.
\<close>

theorem trip_mode_transitions:
  "(legs r \<noteq> [] \<longrightarrow>
      stations (handleFindTrip_settle (Json ''Ok'' (r # rs)) s) = [] \<and>
      route (handleFindTrip_settle (Json ''Ok'' (r # rs)) s) =
        Some \<lparr>geometry = coordinates r, bounds = None\<rparr> \<and>
      isTripModeActive (handleFindTrip_settle (Json ''Ok'' (r # rs)) s)) \<and>
   route (cancelTripMode now s) = None \<and>
   \<not> isTripModeActive (cancelTripMode now s) \<and>
   invoked (cancelTripMode now s) = invoked s \<and>
   (currentRegion s = Some region \<longrightarrow>
      debouncedFetch (cancelTripMode now s) = Some (now + 400, region) \<and>
      invoked (timers t (cancelTripMode now s)) =
        (if t < now + 400 then invoked s
         else invoked s @ [(Region.latitude region, Region.longitude region)]))"
  using handleFindTrip_route_state [of r rs s]
  by (auto simp: cancelTripMode_state timers_fetch)

theorem trip_mode_transitions_witness:
  "legs \<lparr>coordinates = [(Fin 3, Fin 6), (Fin 4, Fin 7)], legs = ['''']\<rparr> \<noteq> [] \<and>
   stations (handleFindTrip_settle
      (Json ''Ok'' [\<lparr>coordinates = [(Fin 3, Fin 6), (Fin 4, Fin 7)], legs = ['''']\<rparr>])
      (onRegionDidChange 0 (Fin 3, Fin 6) initialState)) = [] \<and>
   isTripModeActive (handleFindTrip_settle
      (Json ''Ok'' [\<lparr>coordinates = [(Fin 3, Fin 6), (Fin 4, Fin 7)], legs = ['''']\<rparr>])
      (onRegionDidChange 0 (Fin 3, Fin 6) initialState)) \<and>
   currentRegion (onRegionDidChange 0 (Fin 3, Fin 6) initialState) = Some (regionOf (Fin 3, Fin 6)) \<and>
   route (cancelTripMode 1000 (onRegionDidChange 0 (Fin 3, Fin 6) initialState)) = None \<and>
   debouncedFetch (cancelTripMode 1000 (onRegionDidChange 0 (Fin 3, Fin 6) initialState)) =
     Some (1400, regionOf (Fin 3, Fin 6)) \<and>
   invoked (timers 1400 (cancelTripMode 1000 (onRegionDidChange 0 (Fin 3, Fin 6) initialState))) =
     [(Fin 6, Fin 3)]"
proof -
  let ?r = "\<lparr>coordinates = [(Fin 3, Fin 6), (Fin 4, Fin 7)], legs = ['''']\<rparr>"
  let ?s = "onRegionDidChange 0 (Fin 3, Fin 6) initialState"
  have h1: "legs ?r \<noteq> []" by simp
  have h2: "currentRegion ?s = Some (regionOf (Fin 3, Fin 6))"
    by (simp add: onRegionDidChange_def Let_def initialState_def)
  have h3: "invoked ?s = []"
    by (simp add: onRegionDidChange_fetch initialState_def)
  from trip_mode_transitions [of ?r "[]" ?s 1000 "regionOf (Fin 3, Fin 6)" 1400] h1 h2 h3
  show ?thesis by (simp add: regionOf_def)
qed

text \<open>
  The claim as the specification words it fails in its last part: \<open>cancelTripMode\<close>
  does not invoke the fetch immediately. At the time of the cancel, and until the
  debounce window has elapsed, no request has been sent.
\<close>

theorem cancelTripMode_not_immediate_counterexample:
  "invoked (cancelTripMode 1000
      (initialState\<lparr>currentRegion := Some (regionOf (Fin 3, Fin 6)), isTripModeActive := True\<rparr>)) = [] \<and>
   invoked (timers 1399 (cancelTripMode 1000
      (initialState\<lparr>currentRegion := Some (regionOf (Fin 3, Fin 6)), isTripModeActive := True\<rparr>))) = [] \<and>
   invoked (timers 1400 (cancelTripMode 1000
      (initialState\<lparr>currentRegion := Some (regionOf (Fin 3, Fin 6)), isTripModeActive := True\<rparr>))) =
     [(Fin 6, Fin 3)]"
  by (simp add: cancelTripMode_state timers_fetch regionOf_def initialState_def)

section \<open>Properties of the route texts\<close>

subsection \<open>Unfolding the recursive functions\<close>

lemma bit_length_0: "bit_length 0 = 0"
  by (simp add: bit_length.simps)

lemma bit_length_pos: "0 < n \<Longrightarrow> bit_length n = Suc (bit_length (n div 2))"
  by (subst bit_length.simps) simp

lemma digits_small: "n < 10 \<Longrightarrow> digits n = [digit n]"
  by (subst digits.simps) simp

lemma digits_large: "10 \<le> n \<Longrightarrow> digits n = digits (n div 10) @ [digit (n mod 10)]"
  by (subst digits.simps) simp

lemma shortest_from_found:
  "k \<le> 17 \<Longrightarrow> candidates x k = c # cs \<Longrightarrow> shortest_from x k = closest x c cs"
  by (subst shortest_from.simps) simp

lemma fl_positive:
  assumes "0 < x" and "ilog2 x = e" and "- 1022 \<le> e"
    and "round_half_even (x / pow2 (e - 52)) = m"
    and "of_int m * pow2 (e - 52) < pow2 1024"
  shows "fl x = Fin (of_int m * pow2 (e - 52))"
proof -
  from assms(1) have a: "\<bar>x\<bar> = x" "x \<noteq> 0" "\<not> x < 0" by simp_all
  from assms(2,3) have "max (ilog2 x) (- 1022) = e" by simp
  then show ?thesis
    using assms(4,5) by (simp add: fl_def a Let_def)
qed

lemmas eval_fl =
  fl_def ilog2_def bit_length_0 bit_length_pos round_half_even_def pow2_def Let_def

subsection \<open>The rounding to a double\<close>

text \<open>
  \<open>ilog2\<close> is the binary exponent, and rounding a real below \<open>2^1023\<close> gives a finite
  double within half a unit in the last place: a relative error of at most \<open>2^-53\<close>,
  or \<open>2^-1075\<close> among the subnormal numbers.
\<close>

lemma pow2_power_int: "pow2 e = power_int 2 e"
  by (simp add: pow2_def power_int_def power_one_over inverse_eq_divide)

lemma pow2_pos: "0 < pow2 e"
  by (simp add: pow2_power_int)

lemma pow2_add: "pow2 (a + b) = pow2 a * pow2 b"
  by (simp add: pow2_power_int power_int_add)

lemma pow2_mono: "a \<le> b \<Longrightarrow> pow2 a \<le> pow2 b"
  unfolding pow2_power_int by (rule power_int_increasing) simp_all

lemma pow2_nat: "pow2 (int n) = 2 ^ n"
  by (simp add: pow2_def)

lemma pow2_neg_nat: "pow2 (- int k) = 1 / 2 ^ k"
proof (cases "k = 0")
  case True
  then show ?thesis by (simp add: pow2_def)
next
  case False
  then have "\<not> 0 \<le> - int k" by simp
  then show ?thesis by (simp only: pow2_def if_False minus_minus nat_int)
qed

lemma bit_length_bounds:
  "0 < n \<Longrightarrow> 2 ^ (bit_length n - 1) \<le> n \<and> n < 2 ^ bit_length n"
proof (induction n rule: bit_length.induct)
  case (1 n)
  show ?case
  proof (cases "n div 2 = 0")
    case True
    with "1.prems" have "n = 1" by (simp add: div_eq_0_iff) 
    then show ?thesis by (simp add: bit_length.simps [of "Suc 0"] bit_length.simps [of 0])
  next
    case False
    then have pos: "0 < n div 2" by simp
    with "1.prems" "1.IH" have ih: "2 ^ (bit_length (n div 2) - 1) \<le> n div 2"
      "n div 2 < 2 ^ bit_length (n div 2)" by simp_all
    from pos have bl: "0 < bit_length (n div 2)"
      by (subst bit_length.simps) simp
    have eq: "bit_length n = Suc (bit_length (n div 2))"
      using "1.prems" by (subst bit_length.simps) simp
    from bl obtain j where j: "bit_length (n div 2) = Suc j" by (cases "bit_length (n div 2)") auto
    from ih j have "2 * 2 ^ j \<le> 2 * (n div 2)" by simp
    also have "\<dots> \<le> n" by simp
    finally have lo: "2 ^ (bit_length n - 1) \<le> n" by (simp add: eq j)
    from ih(2) have "n div 2 + 1 \<le> 2 ^ bit_length (n div 2)" by simp
    then have "2 * (n div 2) + 2 \<le> 2 * 2 ^ bit_length (n div 2)" by simp
    moreover have "n < 2 * (n div 2) + 2" by presburger
    ultimately have "n < 2 ^ bit_length n" by (simp add: eq)
    with lo show ?thesis by simp
  qed
qed

lemma ilog2_bounds:
  assumes "0 < x"
  shows "pow2 (ilog2 x) \<le> x \<and> x < pow2 (ilog2 x + 1)"
proof (cases "1 \<le> x")
  case True
  let ?n = "nat \<lfloor>x\<rfloor>"
  from True have n: "0 < ?n" by simp
  then have bl: "0 < bit_length ?n" by (subst bit_length.simps) simp
  from bit_length_bounds [OF n] have b: "2 ^ (bit_length ?n - 1) \<le> ?n" "?n < 2 ^ bit_length ?n"
    by simp_all
  from True have e: "ilog2 x = int (bit_length ?n - 1)"
    using bl by (simp add: ilog2_def)
  from True have "real ?n = of_int \<lfloor>x\<rfloor>" by simp
  then have fl: "real ?n \<le> x" "x < real ?n + 1"
    using floor_correct [of x] by simp_all
  from b(1) have "(2::real) ^ (bit_length ?n - 1) \<le> real ?n"
    by (metis of_nat_le_iff of_nat_numeral of_nat_power)
  with fl have "(2::real) ^ (bit_length ?n - 1) \<le> x" by linarith
  then have lo: "pow2 (ilog2 x) \<le> x" by (simp only: e pow2_nat)
  from b(2) have "Suc ?n \<le> 2 ^ bit_length ?n" by (rule Suc_leI)
  then have "real (Suc ?n) \<le> 2 ^ bit_length ?n"
    by (metis of_nat_le_iff of_nat_numeral of_nat_power)
  then have "real ?n + 1 \<le> 2 ^ bit_length ?n" by simp
  with fl(2) have "x < 2 ^ bit_length ?n" by linarith
  moreover have "ilog2 x + 1 = int (bit_length ?n)" using e bl by simp
  ultimately have "x < pow2 (ilog2 x + 1)" by (simp only: pow2_nat)
  with lo show ?thesis by simp
next
  case False
  with assms have x: "0 < x" "x < 1" by simp_all
  let ?c = "\<lceil>1 / x\<rceil>"
  let ?n = "nat (?c - 1)"
  from x have "1 < 1 / x" by simp
  then have c: "2 \<le> ?c" by linarith
  then have n: "0 < ?n" by simp
  from bit_length_bounds [OF n] have b: "2 ^ (bit_length ?n - 1) \<le> ?n" "?n < 2 ^ bit_length ?n"
    by simp_all
  from n have bl: "0 < bit_length ?n" by (subst bit_length.simps) simp
  from False have e: "ilog2 x = - int (bit_length ?n)" by (simp add: ilog2_def)
  from c have "0 \<le> ?c - 1" by linarith
  then have "real ?n = of_int (?c - 1)" by (rule of_nat_nat)
  then have "real ?n = of_int ?c - 1" by (simp only: of_int_diff of_int_1)
  then have up: "1 / x \<le> real ?n + 1" and lowr: "real ?n < 1 / x"
    using ceiling_correct [of "1 / x"] by simp_all
  from b(2) have "Suc ?n \<le> 2 ^ bit_length ?n" by (rule Suc_leI)
  then have "real (Suc ?n) \<le> 2 ^ bit_length ?n"
    by (metis of_nat_le_iff of_nat_numeral of_nat_power)
  then have "real ?n + 1 \<le> 2 ^ bit_length ?n" by simp
  with up have "1 / x \<le> 2 ^ bit_length ?n" by linarith
  with x have "1 \<le> 2 ^ bit_length ?n * x" by (simp add: field_simps)
  then have lo: "pow2 (ilog2 x) \<le> x"
    unfolding e pow2_neg_nat by (simp add: field_simps)
  from b(1) have "(2::real) ^ (bit_length ?n - 1) \<le> real ?n"
    by (metis of_nat_le_iff of_nat_numeral of_nat_power)
  with lowr have "2 ^ (bit_length ?n - 1) < 1 / x" by linarith
  with x have "2 ^ (bit_length ?n - 1) * x < 1" by (simp add: field_simps)
  moreover have "ilog2 x + 1 = - int (bit_length ?n - 1)" using e bl by simp
  ultimately have "x < pow2 (ilog2 x + 1)"
    by (simp only: pow2_neg_nat) (simp add: field_simps)
  with lo show ?thesis by simp
qed

lemma round_half_even_close: "\<bar>of_int (round_half_even z) - z\<bar> \<le> 1 / 2"
proof -
  have "of_int \<lfloor>z\<rfloor> \<le> z" "z < of_int \<lfloor>z\<rfloor> + 1"
    using floor_correct [of z] by simp_all
  then show ?thesis
    by (auto simp: round_half_even_def Let_def)
qed

lemma round_half_even_le:
  assumes "z \<le> of_int k"
  shows "round_half_even z \<le> k"
proof -
  from assms have f: "\<lfloor>z\<rfloor> \<le> k" using floor_mono [of z "of_int k"] by simp
  show ?thesis
  proof (cases "z = of_int \<lfloor>z\<rfloor>")
    case True
    then have "z - of_int \<lfloor>z\<rfloor> = 0" by simp
    then have "round_half_even z = \<lfloor>z\<rfloor>" by (simp add: round_half_even_def Let_def)
    with f show ?thesis by simp
  next
    case False
    then have "of_int \<lfloor>z\<rfloor> < z" using of_int_floor_le [of z] by (auto simp: less_le)
    with assms have "of_int \<lfloor>z\<rfloor> < (of_int k :: real)" by linarith
    then have "\<lfloor>z\<rfloor> < k" by simp
    moreover have "round_half_even z \<le> \<lfloor>z\<rfloor> + 1"
      by (simp add: round_half_even_def Let_def)
    ultimately show ?thesis by simp
  qed
qed

lemma ilog2_less:
  assumes "0 < a" and "a < pow2 b"
  shows "ilog2 a < b"
proof (rule ccontr)
  assume "\<not> ilog2 a < b"
  then have "pow2 b \<le> pow2 (ilog2 a)" by (simp add: pow2_mono)
  also have "\<dots> \<le> a" using ilog2_bounds [OF assms(1)] by simp
  finally show False using assms(2) by simp
qed

lemma fl_finite:
  assumes "0 \<le> a" and "a < pow2 1023"
  shows "\<exists>q. fl a = Fin q \<and> 0 \<le> q \<and> \<bar>q - a\<bar> \<le> max (a / 2 ^ 53) (pow2 (- 1075))"
proof (cases "a = 0")
  case True
  then show ?thesis by (simp add: fl_def pow2_def)
next
  case False
  with assms(1) have pos: "0 < a" by simp
  let ?e = "max (ilog2 a) (- 1022)"
  let ?u = "pow2 (?e - 52)"
  let ?m = "round_half_even (a / ?u)"
  have u: "0 < ?u" by (rule pow2_pos)
  from ilog2_less [OF pos assms(2)] have e: "?e \<le> 1022" by simp
  have "a < pow2 (ilog2 a + 1)" using ilog2_bounds [OF pos] by simp
  also have "\<dots> \<le> pow2 (?e + 1)" by (rule pow2_mono) simp
  also have "\<dots> = pow2 53 * ?u"
  proof -
    have "pow2 (?e + 1) = pow2 (53 + (?e - 52))" by (rule arg_cong [of _ _ pow2]) linarith
    then show ?thesis by (simp only: pow2_add)
  qed
  finally have "a / ?u < pow2 53" using u by (simp add: field_simps)
  then have "a / ?u \<le> of_int (2 ^ 53)" by (simp add: pow2_def)
  then have "?m \<le> 2 ^ 53" by (rule round_half_even_le)
  then have "(of_int ?m :: real) \<le> 2 ^ 53"
    by (metis of_int_le_iff of_int_numeral of_int_power)
  then have "of_int ?m * ?u \<le> pow2 53 * ?u" using u by (simp add: pow2_def)
  also have "\<dots> = pow2 (?e + 1)"
  proof -
    have "pow2 (?e + 1) = pow2 (53 + (?e - 52))" by (rule arg_cong [of _ _ pow2]) linarith
    then show ?thesis by (simp only: pow2_add)
  qed
  also have "\<dots> \<le> pow2 1023" using e by (intro pow2_mono) simp
  also have "\<dots> < pow2 1024" by (simp add: pow2_def)
  finally have small: "\<not> pow2 1024 \<le> of_int ?m * ?u" by simp
  from pos have abs: "\<bar>a\<bar> = a" by simp
  have eq: "fl a = Fin (of_int ?m * ?u)"
    using pos small by (simp add: fl_def Let_def abs)
  from pos u have "0 \<le> a / ?u" by simp
  then have "0 \<le> ?m" by (auto simp: round_half_even_def Let_def)
  with u have nonneg: "0 \<le> of_int ?m * ?u" by simp
  have "\<bar>of_int ?m - a / ?u\<bar> \<le> 1 / 2" by (rule round_half_even_close)
  then have "\<bar>of_int ?m - a / ?u\<bar> * ?u \<le> 1 / 2 * ?u"
    using u by (intro mult_right_mono) simp_all
  moreover have "\<bar>of_int ?m - a / ?u\<bar> * ?u = \<bar>of_int ?m * ?u - a\<bar>"
  proof -
    have "\<bar>of_int ?m - a / ?u\<bar> * ?u = \<bar>(of_int ?m - a / ?u) * ?u\<bar>"
      using u by (simp add: abs_mult)
    also have "(of_int ?m - a / ?u) * ?u = of_int ?m * ?u - a"
      using u by (simp add: field_simps)
    finally show ?thesis .
  qed
  ultimately have err: "\<bar>of_int ?m * ?u - a\<bar> \<le> ?u / 2" by simp
  have "?u / 2 = pow2 (?e - 53)"
  proof -
    have "pow2 (?e - 52) = pow2 ((?e - 53) + 1)" by (rule arg_cong [of _ _ pow2]) linarith
    then have "pow2 (?e - 52) = pow2 (?e - 53) * pow2 1" by (simp only: pow2_add)
    moreover have "pow2 1 = 2" by (simp add: pow2_def)
    ultimately show ?thesis by simp
  qed
  moreover have "pow2 (?e - 53) \<le> max (a / 2 ^ 53) (pow2 (- 1075))"
  proof (cases "- 1022 \<le> ilog2 a")
    case True
    then have "pow2 (ilog2 a) = pow2 ((?e - 53) + 53)" by (intro arg_cong [of _ _ pow2]) linarith
    then have "pow2 (ilog2 a) = pow2 (?e - 53) * pow2 53" by (simp only: pow2_add)
    moreover have "pow2 (ilog2 a) \<le> a" using ilog2_bounds [OF pos] by simp
    moreover have "pow2 53 = 2 ^ 53" by (simp add: pow2_def)
    ultimately have "pow2 (?e - 53) * 2 ^ 53 \<le> a" by simp
    then have "pow2 (?e - 53) \<le> a / 2 ^ 53" by (simp add: field_simps)
    then show ?thesis by simp
  next
    case False
    then have "?e - 53 = - 1075" by simp
    then show ?thesis by simp
  qed
  ultimately have "\<bar>of_int ?m * ?u - a\<bar> \<le> max (a / 2 ^ 53) (pow2 (- 1075))"
    using err by simp
  with eq nonneg show ?thesis by blast
qed

subsection \<open>Digits of integers\<close>

lemma digits_nonempty: "digits n \<noteq> []"
  by (subst digits.simps) simp

lemma digits_range:
  "1 \<le> n \<Longrightarrow> 10 ^ (length (digits n) - 1) \<le> n \<and> n < 10 ^ length (digits n)"
proof (induction n rule: digits.induct)
  case (1 n)
  show ?case
  proof (cases "n < 10")
    case True
    with "1.prems" show ?thesis by (simp add: digits_small)
  next
    case False
    let ?L = "length (digits (n div 10))"
    from False have d: "digits n = digits (n div 10) @ [digit (n mod 10)]"
      by (simp add: digits_large)
    from False have "1 \<le> n div 10" by simp
    with False "1.IH" have ih: "10 ^ (?L - 1) \<le> n div 10" "n div 10 < 10 ^ ?L" by simp_all
    have "0 < ?L" using digits_nonempty [of "n div 10"] by simp
    then obtain j where j: "?L = Suc j" by (cases ?L) auto
    from ih(1) j have "10 * 10 ^ j \<le> 10 * (n div 10)" by simp
    also have "\<dots> \<le> n" by simp
    finally have lo: "10 ^ ?L \<le> n" by (simp add: j)
    from ih(2) have "Suc (n div 10) \<le> 10 ^ ?L" by (rule Suc_leI)
    then have "10 * Suc (n div 10) \<le> 10 * 10 ^ ?L" by simp
    moreover have "n < 10 * Suc (n div 10)" by simp
    ultimately have "n < 10 * 10 ^ ?L" by simp
    with lo show ?thesis by (simp add: d)
  qed
qed

lemma length_digits_unique:
  assumes "1 \<le> k" and "10 ^ (k - 1) \<le> s" and "s < 10 ^ k"
  shows "length (digits s) = k"
proof -
  have "(1::nat) \<le> 10 ^ (k - 1)" by simp
  then have s: "1 \<le> s" using assms(2) by (rule le_trans)
  let ?L = "length (digits s)"
  from digits_range [OF s] have r: "10 ^ (?L - 1) \<le> s" "s < 10 ^ ?L" by simp_all
  from r(1) assms(3) have "(10::nat) ^ (?L - 1) < 10 ^ k" by (rule le_less_trans)
  then have a: "?L - 1 < k" by (rule power_less_imp_less_exp [rotated]) simp
  from assms(2) r(2) have "(10::nat) ^ (k - 1) < 10 ^ ?L" by (rule le_less_trans)
  then have b: "k - 1 < ?L" by (rule power_less_imp_less_exp [rotated]) simp
  from a b assms(1) show ?thesis by simp
qed

lemma digits_shift:
  "1 \<le> s \<Longrightarrow> digits (s * 10 ^ t) = digits s @ replicate t (CHR ''0'')"
proof (induction t)
  case 0
  show ?case by simp
next
  case (Suc t)
  from Suc.prems have "1 \<le> s * 10 ^ t" by simp
  then have "10 \<le> s * 10 ^ Suc t" by simp
  then have "digits (s * 10 ^ Suc t) =
      digits (s * 10 ^ Suc t div 10) @ [digit (s * 10 ^ Suc t mod 10)]"
    by (rule digits_large)
  moreover have "s * 10 ^ Suc t div 10 = s * 10 ^ t" "s * 10 ^ Suc t mod 10 = 0" by simp_all
  ultimately show ?case
    using Suc by (simp add: digit_def replicate_append_same)
qed

lemma strip_zeros:
  "1 \<le> (m::nat) \<Longrightarrow> \<exists>s t. m = s * 10 ^ t \<and> 1 \<le> s \<and> \<not> 10 dvd s"
proof (induction m rule: less_induct)
  case (less m)
  show ?case
  proof (cases "10 dvd m")
    case False
    with less.prems have "m = m * 10 ^ 0 \<and> 1 \<le> m \<and> \<not> 10 dvd m" by simp
    then show ?thesis by blast
  next
    case True
    then obtain m' where m': "m = 10 * m'" by (auto simp: dvd_def)
    with less.prems have "m' < m" "1 \<le> m'" by simp_all
    with less.IH obtain s t where "m' = s * 10 ^ t" "1 \<le> s" "\<not> 10 dvd s" by blast
    with m' have "m = s * 10 ^ Suc t \<and> 1 \<le> s \<and> \<not> 10 dvd s" by simp
    then show ?thesis by blast
  qed
qed

subsection \<open>Rounding integers\<close>

lemma round_half_even_of_int: "round_half_even (of_int z) = z"
  by (simp add: round_half_even_def)

lemma round_half_even_ge:
  assumes "of_int k \<le> z"
  shows "k \<le> round_half_even z"
proof -
  from assms have "k \<le> \<lfloor>z\<rfloor>" by (simp add: le_floor_iff)
  moreover have "\<lfloor>z\<rfloor> \<le> round_half_even z"
    by (simp add: round_half_even_def Let_def)
  ultimately show ?thesis by simp
qed

lemma fl_value:
  assumes "0 < a" and "fl a = Fin q"
  shows "q = of_int (round_half_even (a / pow2 (max (ilog2 a) (- 1022) - 52))) *
             pow2 (max (ilog2 a) (- 1022) - 52)"
  using assms by (auto simp: fl_def Let_def split: if_splits)

lemma fl_error:
  assumes "0 < a" and "fl a = Fin q"
  shows "\<bar>q - a\<bar> \<le> pow2 (max (ilog2 a) (- 1022) - 52) / 2"
proof -
  let ?u = "pow2 (max (ilog2 a) (- 1022) - 52)"
  let ?m = "round_half_even (a / ?u)"
  have u: "0 < ?u" by (rule pow2_pos)
  have "\<bar>of_int ?m - a / ?u\<bar> \<le> 1 / 2" by (rule round_half_even_close)
  then have "\<bar>of_int ?m - a / ?u\<bar> * ?u \<le> 1 / 2 * ?u"
    using u by (intro mult_right_mono) simp_all
  moreover have "\<bar>of_int ?m - a / ?u\<bar> * ?u = \<bar>of_int ?m * ?u - a\<bar>"
  proof -
    have "\<bar>of_int ?m - a / ?u\<bar> * ?u = \<bar>(of_int ?m - a / ?u) * ?u\<bar>"
      using u by (simp add: abs_mult)
    also have "(of_int ?m - a / ?u) * ?u = of_int ?m * ?u - a"
      using u by (simp add: field_simps)
    finally show ?thesis .
  qed
  ultimately show ?thesis using fl_value [OF assms] by simp
qed

lemma fl_safe_integer:
  assumes "1 \<le> m" and "m < 2 ^ 53"
  shows "fl (real m) = Fin (real m)"
proof -
  from assms(1) have pos: "0 < real m" by simp
  have "real m < 2 ^ 53" using assms(2)
    by (metis of_nat_less_iff of_nat_numeral of_nat_power)
  then have "real m < pow2 53" by (simp add: pow2_def)
  from ilog2_less [OF pos this] have hi: "ilog2 (real m) \<le> 52" by simp
  have "pow2 0 \<le> real m" using assms(1) by (simp add: pow2_def)
  also have "real m < pow2 (ilog2 (real m) + 1)" using ilog2_bounds [OF pos] by simp
  finally have "0 < ilog2 (real m) + 1"
    by (metis not_less pow2_mono leD leI)
  then have lo: "0 \<le> ilog2 (real m)" by simp
  define k where "k = nat (52 - ilog2 (real m))"
  from lo hi have e: "ilog2 (real m) - 52 = - int k" by (simp add: k_def)
  have u: "pow2 (ilog2 (real m) - 52) = 1 / 2 ^ k" unfolding e by (rule pow2_neg_nat)
  have "real m / (1 / 2 ^ k) = of_int (int (m * 2 ^ k))" by simp
  then have r: "round_half_even (real m / (1 / 2 ^ k)) = int (m * 2 ^ k)"
    by (simp only: round_half_even_of_int)
  have "of_int (int (m * 2 ^ k)) * (1 / 2 ^ k) = real m" by simp
  moreover have "real m < pow2 1024" using \<open>real m < pow2 53\<close> pow2_mono [of 53 1024] by simp
  ultimately show ?thesis
    using fl_positive [OF pos refl, of "int (m * 2 ^ k)"] lo r u by simp
qed

lemma fl_large:
  assumes "pow2 53 \<le> v" and "fl v = Fin q"
  shows "pow2 53 \<le> q"
proof -
  have "0 < pow2 53" by (rule pow2_pos)
  with assms(1) have pos: "0 < v" by simp
  let ?e = "ilog2 v"
  have "v < pow2 (?e + 1)" using ilog2_bounds [OF pos] by simp
  with assms(1) have "pow2 53 < pow2 (?e + 1)" by simp
  then have e: "53 \<le> ?e"
    by (metis not_less pow2_mono leD leI add_le_cancel_right zle_add1_eq_le)
  then have mx: "max ?e (- 1022) = ?e" by simp
  let ?u = "pow2 (?e - 52)"
  have u: "0 < ?u" by (rule pow2_pos)
  have "pow2 ?e = pow2 52 * ?u"
  proof -
    have "pow2 ?e = pow2 (52 + (?e - 52))" by (rule arg_cong [of _ _ pow2]) simp
    then show ?thesis by (simp only: pow2_add)
  qed
  moreover have "pow2 ?e \<le> v" using ilog2_bounds [OF pos] by simp
  ultimately have "pow2 52 * ?u \<le> v" by simp
  then have "pow2 52 \<le> v / ?u" using u by (simp add: field_simps)
  then have "of_int (2 ^ 52) \<le> v / ?u" by (simp add: pow2_def)
  then have "2 ^ 52 \<le> round_half_even (v / ?u)" by (rule round_half_even_ge)
  then have "(2 ^ 52 :: real) \<le> of_int (round_half_even (v / ?u))"
    by (metis of_int_le_iff of_int_numeral of_int_power)
  then have "2 ^ 52 * ?u \<le> of_int (round_half_even (v / ?u)) * ?u"
    using u by simp
  moreover have "q = of_int (round_half_even (v / ?u)) * ?u"
    using fl_value [OF pos assms(2)] mx by simp
  moreover have "pow2 53 \<le> pow2 ?e" using e by (rule pow2_mono)
  moreover have "pow2 ?e = 2 ^ 52 * ?u" using \<open>pow2 ?e = pow2 52 * ?u\<close> by (simp add: pow2_def)
  ultimately show ?thesis by simp
qed

subsection \<open>The shortest digits of an integer below \<open>2^53\<close>\<close>

lemma pow10_nat: "pow10 (int j) = 10 ^ j"
  by (simp add: pow10_def)

lemma pow10_neg_nat: "pow10 (- int j) = 1 / 10 ^ j"
proof (cases "j = 0")
  case True
  then show ?thesis by (simp add: pow10_def)
next
  case False
  then have "\<not> 0 \<le> - int j" by simp
  then show ?thesis by (simp only: pow10_def if_False minus_minus nat_int)
qed

lemma ulp_bound:
  assumes "0 < a"
  shows "pow2 (max (ilog2 a) (- 1022) - 52) / 2 \<le> max (a / 2 ^ 53) (pow2 (- 1075))"
proof -
  let ?e = "max (ilog2 a) (- 1022)"
  have half: "pow2 (?e - 52) / 2 = pow2 (?e - 53)"
  proof -
    have "pow2 (?e - 52) = pow2 ((?e - 53) + 1)" by (rule arg_cong [of _ _ pow2]) linarith
    then have "pow2 (?e - 52) = pow2 (?e - 53) * pow2 1" by (simp only: pow2_add)
    moreover have "pow2 1 = 2" by (simp add: pow2_def)
    ultimately show ?thesis by simp
  qed
  have "pow2 (?e - 53) \<le> max (a / 2 ^ 53) (pow2 (- 1075))"
  proof (cases "- 1022 \<le> ilog2 a")
    case True
    then have "pow2 (ilog2 a) = pow2 ((?e - 53) + 53)" by (intro arg_cong [of _ _ pow2]) linarith
    then have "pow2 (ilog2 a) = pow2 (?e - 53) * pow2 53" by (simp only: pow2_add)
    moreover have "pow2 (ilog2 a) \<le> a" using ilog2_bounds [OF assms] by simp
    moreover have "pow2 53 = 2 ^ 53" by (simp add: pow2_def)
    ultimately have "pow2 (?e - 53) * 2 ^ 53 \<le> a" by simp
    then have "pow2 (?e - 53) \<le> a / 2 ^ 53" by (simp add: field_simps)
    then show ?thesis by simp
  next
    case False
    then have "?e - 53 = - 1075" by simp
    then show ?thesis by simp
  qed
  with half show ?thesis by simp
qed

lemma candidate_exact:
  assumes "1 \<le> k" and "k \<le> 15" and "10 ^ (k - 1) \<le> s" and "s < 10 ^ k"
    and "1 \<le> m" and "m < 2 ^ 53"
    and "fl (real s * pow10 (n - int k)) = Fin (real m)"
  shows "real s * pow10 (n - int k) = real m"
proof (cases "int k \<le> n")
  case True
  define j where "j = nat (n - int k)"
  from True have p: "pow10 (n - int k) = 10 ^ j" by (simp add: j_def pow10_def)
  have v: "real s * pow10 (n - int k) = real (s * 10 ^ j)" by (simp add: p)
  have "(1::nat) \<le> 10 ^ (k - 1)" by simp
  then have "1 \<le> s" using assms(3) by (rule le_trans)
  then have one: "1 \<le> s * 10 ^ j" by simp
  show ?thesis
  proof (cases "s * 10 ^ j < 2 ^ 53")
    case True
    from fl_safe_integer [OF one True] assms(7) show ?thesis
      unfolding v by simp
  next
    case False
    then have "(2::nat) ^ 53 \<le> s * 10 ^ j" by simp
    then have "(2::real) ^ 53 \<le> real (s * 10 ^ j)"
      by (metis of_nat_le_iff of_nat_numeral of_nat_power)
    then have "pow2 53 \<le> real (s * 10 ^ j)" by (simp add: pow2_def)
    from this assms(7) [unfolded v] have "pow2 53 \<le> real m" by (rule fl_large)
    then have "(2::real) ^ 53 \<le> real m" by (simp add: pow2_def)
    then have "(2::nat) ^ 53 \<le> m"
      by (metis of_nat_le_iff of_nat_numeral of_nat_power)
    with assms(6) show ?thesis by simp
  qed
next
  case False
  define j where "j = nat (int k - n)"
  from False have "n - int k = - int j" by (simp add: j_def)
  then have p: "pow10 (n - int k) = 1 / 10 ^ j" by (simp only: pow10_neg_nat)
  let ?v = "real s / 10 ^ j"
  have v: "real s * pow10 (n - int k) = ?v" by (simp add: p)
  have "(1::nat) \<le> 10 ^ (k - 1)" by simp
  then have s1: "1 \<le> s" using assms(3) by (rule le_trans)
  then have pos: "0 < ?v" by simp
  have "(10::nat) ^ k \<le> 10 ^ 15" using assms(2) by (intro power_increasing) simp_all
  with assms(4) have "s < 10 ^ 15" by simp
  then have s15: "real s < 10 ^ 15"
    by (metis of_nat_less_iff of_nat_numeral of_nat_power)
  from assms(7) have f: "fl ?v = Fin (real m)" unfolding v .
  from fl_error [OF pos f] ulp_bound [OF pos]
  have err: "\<bar>real m - ?v\<bar> \<le> max (?v / 2 ^ 53) (pow2 (- 1075))" by simp
  show ?thesis
  proof (rule ccontr)
    assume "real s * pow10 (n - int k) \<noteq> real m"
    then have "real m * 10 ^ j \<noteq> real s" unfolding v by (auto simp: field_simps)
    then have "int (m * 10 ^ j) \<noteq> int s"
      by (metis of_nat_eq_iff of_nat_mult of_nat_numeral of_nat_power)
    then have "1 \<le> \<bar>int (m * 10 ^ j) - int s\<bar>" by simp
    then have "(1::real) \<le> of_int \<bar>int (m * 10 ^ j) - int s\<bar>" by linarith
    also have "of_int \<bar>int (m * 10 ^ j) - int s\<bar> = \<bar>real m * 10 ^ j - real s\<bar>" by simp
    also have "\<dots> = \<bar>real m - ?v\<bar> * 10 ^ j"
    proof -
      have "real m * 10 ^ j - real s = (real m - ?v) * 10 ^ j" by (simp add: field_simps)
      then show ?thesis by (simp add: abs_mult)
    qed
    finally have low: "1 / 10 ^ j \<le> \<bar>real m - ?v\<bar>" by (simp add: field_simps)
    show False
    proof (cases "pow2 (- 1075) \<le> ?v / 2 ^ 53")
      case True
      with err low have "1 / 10 ^ j \<le> ?v / 2 ^ 53" by simp
      then have "2 ^ 53 \<le> real s" by (simp add: field_simps)
      with s15 show False by simp
    next
      case False
      with err have small: "\<bar>real m - ?v\<bar> \<le> pow2 (- 1075)" by simp
      have "pow2 (- 1075) \<le> 1 / 2" by (simp add: pow2_def)
      moreover from assms(5) have "1 \<le> real m" by simp
      ultimately have "1 / 2 \<le> ?v" using small by linarith
      then have "10 ^ j \<le> 2 * real s" by (simp add: field_simps)
      with s15 have "(10::real) ^ j < 2 * 10 ^ 15" by simp
      then have "1 / (2 * 10 ^ 15) < 1 / (10::real) ^ j"
        by (intro divide_strict_left_mono) simp_all
      moreover have "pow2 (- 1075) < 1 / (2 * 10 ^ 15)" by (simp add: pow2_def)
      ultimately show False using low small by linarith
    qed
  qed
qed

lemma candidates_sound:
  assumes "c \<in> set (candidates x k)"
  shows "\<exists>s n. c = (s, k, n) \<and> 10 ^ (k - 1) \<le> s \<and> s < 10 ^ k \<and>
                fl (real s * pow10 (n - int k)) = Fin x"
proof -
  define P where "P = (\<lambda>(s, k, n). 10 ^ (k - 1) \<le> s \<and> s < 10 ^ k \<and>
                fl (real s * pow10 (n - int k)) = Fin x)"
  define f where "f = (\<lambda>n. filter P [(nat \<lfloor>x / pow10 (n - int k)\<rfloor>, k, n),
                                      (nat \<lfloor>x / pow10 (n - int k)\<rfloor> + 1, k, n)])"
  have "candidates x k = concat (map f [dec_exp x, dec_exp x + 1, dec_exp x - 1])"
    unfolding candidates_def f_def P_def Let_def ..
  with assms obtain n where "c \<in> set (f n)" by auto
  then have "c \<in> {e \<in> set [(nat \<lfloor>x / pow10 (n - int k)\<rfloor>, k, n),
                          (nat \<lfloor>x / pow10 (n - int k)\<rfloor> + 1, k, n)]. P e}"
    by (simp only: f_def set_filter)
  then have "P c" and "\<exists>t. c = (t, k, n)" by auto
  then show ?thesis by (auto simp: P_def)
qed

lemma closest_exact:
  assumes "distance_to x c = 0"
    and "\<forall>d \<in> set cs. distance_to x d = 0 \<longrightarrow> fst d = fst c"
  shows "closest x c cs = c"
  using assms(2)
proof (induction cs)
  case Nil
  show ?case by simp
next
  case (Cons d ds)
  have "0 \<le> distance_to x d" by (cases d) (simp add: distance_to_def)
  then have a: "\<not> distance_to x d < distance_to x c" using assms(1) by simp
  have b: "\<not> (distance_to x d = distance_to x c \<and> even (fst d) \<and> odd (fst c))"
    using Cons.prems assms(1) by auto
  from a b have "\<not> (distance_to x d < distance_to x c \<or>
      (distance_to x d = distance_to x c \<and> even (fst d) \<and> odd (fst c)))" by blast
  then have "closest x c (d # ds) = closest x c ds"
    by (simp only: closest.simps if_False)
  with Cons show ?case by simp
qed

lemma candidates_head:
  assumes "nat \<lfloor>x / pow10 (dec_exp x - int k)\<rfloor> = s"
    and "10 ^ (k - 1) \<le> s" and "s < 10 ^ k"
    and "fl (real s * pow10 (dec_exp x - int k)) = Fin x"
  shows "\<exists>cs. candidates x k = (s, k, dec_exp x) # cs"
proof -
  define P where "P = (\<lambda>(s, k, n). 10 ^ (k - 1) \<le> s \<and> s < 10 ^ k \<and>
                fl (real s * pow10 (n - int k)) = Fin x)"
  define f where "f = (\<lambda>n. filter P [(nat \<lfloor>x / pow10 (n - int k)\<rfloor>, k, n),
                                      (nat \<lfloor>x / pow10 (n - int k)\<rfloor> + 1, k, n)])"
  have "candidates x k = concat (map f [dec_exp x, dec_exp x + 1, dec_exp x - 1])"
    unfolding candidates_def f_def P_def Let_def ..
  then have "candidates x k = f (dec_exp x) @ concat (map f [dec_exp x + 1, dec_exp x - 1])"
    by simp
  moreover have "P (s, k, dec_exp x)" using assms(2-4) by (simp add: P_def)
  then have "f (dec_exp x) = (s, k, dec_exp x) # filter P [(s + 1, k, dec_exp x)]"
    unfolding f_def assms(1) by simp
  ultimately show ?thesis by simp
qed

lemma shortest_from_next:
  "k \<le> 17 \<Longrightarrow> candidates x k = [] \<Longrightarrow> shortest_from x k = shortest_from x (Suc k)"
  by (subst shortest_from.simps) simp

lemma same_value_same_digits:
  assumes m: "m = s0 * 10 ^ t" and s0: "1 \<le> s0" "\<not> 10 dvd s0"
    and k: "1 \<le> k" "k \<le> length (digits s0)"
    and s: "10 ^ (k - 1) \<le> s" "s < 10 ^ k"
    and v: "real s * pow10 (n - int k) = real m"
  shows "k = length (digits s0) \<and> s = s0 \<and> n = int (length (digits s0) + t)"
proof -
  have ls: "length (digits s) = k" using k(1) s by (rule length_digits_unique)
  have "(1::nat) \<le> 10 ^ (k - 1)" by simp
  then have s1: "1 \<le> s" using s(1) by (rule le_trans)
  have lm: "length (digits m) = length (digits s0) + t"
    unfolding m using s0(1) by (simp add: digits_shift)
  show ?thesis
  proof (cases "int k \<le> n")
    case True
    define a where "a = nat (n - int k)"
    from True have "pow10 (n - int k) = 10 ^ a" by (simp add: a_def pow10_def)
    with v have "real (s * 10 ^ a) = real m" by simp
    then have eq: "s * 10 ^ a = m" by (simp only: of_nat_eq_iff)
    then have "length (digits m) = k + a"
      using s1 ls by (simp add: digits_shift flip: eq)
    with lm have sum: "k + a = length (digits s0) + t" by simp
    have "a \<le> t"
    proof (rule ccontr)
      assume "\<not> a \<le> t"
      then have "t < a" by simp
      then obtain b where b: "a = t + Suc b" by (auto dest: less_imp_Suc_add)
      have "s0 * 10 ^ t = m" by (simp only: m)
      also have "m = s * 10 ^ a" by (simp only: eq)
      also have "\<dots> = s * 10 ^ Suc b * 10 ^ t" by (simp add: b power_add)
      finally have "s0 = s * 10 ^ Suc b" by simp
      then have "10 dvd s0" by simp
      with s0(2) show False by simp
    qed
    then obtain b where b: "t = a + b" by (auto dest: le_Suc_ex)
    have "s * 10 ^ a = m" by (rule eq)
    also have "m = s0 * 10 ^ t" by (rule m)
    also have "\<dots> = s0 * 10 ^ b * 10 ^ a" by (simp add: b power_add)
    finally have sb: "s = s0 * 10 ^ b" by simp
    then have "k = length (digits s0) + b" using ls s0(1) by (simp add: digits_shift)
    with k(2) have "b = 0" by simp
    with sb b sum True show ?thesis by (simp add: a_def)
  next
    case False
    define b where "b = nat (int k - n)"
    from False have "n - int k = - int b" by (simp add: b_def)
    then have "pow10 (n - int k) = 1 / 10 ^ b" by (simp only: pow10_neg_nat)
    with v have "real s = real (m * 10 ^ b)" by (simp add: field_simps)
    then have "s = m * 10 ^ b" by (simp only: of_nat_eq_iff)
    moreover have "1 \<le> m" unfolding m using s0(1) by simp
    ultimately have "k = length (digits m) + b" using ls by (simp add: digits_shift)
    with lm k(2) have "b = 0" by simp
    with False show ?thesis by (simp add: b_def)
  qed
qed

lemma shortest_safe_integer:
  assumes "1 \<le> m" and "m < 2 ^ 53"
  shows "layout (shortest (real m)) = digits m"
proof -
  from strip_zeros [OF assms(1)] obtain s0 t
    where m: "m = s0 * 10 ^ t" and s0: "1 \<le> s0" "\<not> 10 dvd s0" by blast
  define k0 where "k0 = length (digits s0)"
  have k0: "1 \<le> k0" using digits_nonempty [of s0] by (cases "digits s0") (simp_all add: k0_def)
  have r0: "10 ^ (k0 - 1) \<le> s0" "s0 < 10 ^ k0"
    using digits_range [OF s0(1)] by (simp_all add: k0_def)
  have lm: "length (digits m) = k0 + t"
    unfolding m k0_def using s0(1) by (simp add: digits_shift)
  have "10 ^ (length (digits m) - 1) \<le> m" using digits_range [OF assms(1)] by simp
  also have "m < 10 ^ 16" using assms(2) by simp
  finally have "length (digits m) - 1 < 16" by (rule power_less_imp_less_exp [rotated]) simp
  with lm have D: "k0 + t \<le> 16" by simp
  have dec: "dec_exp (real m) = int (k0 + t)"
    using assms(1) lm by (simp add: dec_exp_def)
  have exact: "fl (real s0 * pow10 (int t)) = Fin (real m)"
    using fl_safe_integer [OF assms] by (simp add: m pow10_nat)
  have empty: "candidates (real m) k = []" if "1 \<le> k" "k < k0" for k
  proof (rule ccontr)
    assume "candidates (real m) k \<noteq> []"
    then obtain c where "c \<in> set (candidates (real m) k)" by (cases "candidates (real m) k") auto
    from candidates_sound [OF this] obtain s n
      where c: "10 ^ (k - 1) \<le> s" "s < 10 ^ k" "fl (real s * pow10 (n - int k)) = Fin (real m)"
      by blast
    from that D k0 have "k \<le> 15" by simp
    from candidate_exact [OF that(1) this c(1,2) assms c(3)]
    have "real s * pow10 (n - int k) = real m" .
    from same_value_same_digits [OF m s0 that(1) _ c(1,2) this] that(2)
    show False by (simp add: k0_def)
  qed
  have "nat \<lfloor>real m / pow10 (dec_exp (real m) - int k0)\<rfloor> = s0"
  proof -
    have "pow10 (dec_exp (real m) - int k0) = 10 ^ t" by (simp add: dec pow10_def)
    moreover have "real m / 10 ^ t = real s0" by (simp add: m)
    ultimately show ?thesis by simp
  qed
  moreover have "fl (real s0 * pow10 (dec_exp (real m) - int k0)) = Fin (real m)"
    using exact by (simp add: dec)
  ultimately obtain cs where "candidates (real m) k0 = (s0, k0, dec_exp (real m)) # cs"
    using candidates_head [of "real m" k0 s0] r0 by blast
  then have cand: "candidates (real m) k0 = (s0, k0, int (k0 + t)) # cs"
    by (simp only: dec)
  have zero: "distance_to (real m) (s0, k0, int (k0 + t)) = 0"
    by (simp add: distance_to_def pow10_def m)
  have "\<forall>d \<in> set cs. distance_to (real m) d = 0 \<longrightarrow> fst d = fst (s0, k0, int (k0 + t))"
  proof (intro ballI impI)
    fix d assume d: "d \<in> set cs" "distance_to (real m) d = 0"
    from d(1) cand have "d \<in> set (candidates (real m) k0)" by simp
    from candidates_sound [OF this] obtain s n
      where c: "d = (s, k0, n)" "10 ^ (k0 - 1) \<le> s" "s < 10 ^ k0" by blast
    from d(2) c(1) have "real s * pow10 (n - int k0) = real m"
      by (simp add: distance_to_def)
    from same_value_same_digits [OF m s0 k0 _ c(2,3) this] c(1)
    show "fst d = fst (s0, k0, int (k0 + t))" by (simp add: k0_def)
  qed
  with zero have pick: "closest (real m) (s0, k0, int (k0 + t)) cs = (s0, k0, int (k0 + t))"
    by (rule closest_exact)
  have found: "shortest_from (real m) k0 = (s0, k0, int (k0 + t))"
    using D cand pick by (simp add: shortest_from_found)
  have "shortest_from (real m) (k0 - j) = (s0, k0, int (k0 + t))" if "j < k0" for j
    using that
  proof (induction j)
    case 0
    show ?case using found by simp
  next
    case (Suc j)
    then have "1 \<le> k0 - Suc j" "k0 - Suc j < k0" by simp_all
    then have "candidates (real m) (k0 - Suc j) = []" by (rule empty)
    moreover have "k0 - Suc j \<le> 17" using D by simp
    ultimately have "shortest_from (real m) (k0 - Suc j) = shortest_from (real m) (Suc (k0 - Suc j))"
      by (intro shortest_from_next)
    moreover from Suc.prems have "Suc (k0 - Suc j) = k0 - j" by simp
    ultimately show ?case using Suc by simp
  qed
  from this [of "k0 - 1"] k0 have "shortest (real m) = (s0, k0, int (k0 + t))"
    by (simp add: shortest_def)
  then have "layout (shortest (real m)) = digits s0 @ replicate t (CHR ''0'')"
    using D by (simp add: layout_def k0_def)
  then show ?thesis unfolding m using s0(1) by (simp add: digits_shift)
qed

subsection \<open>Evaluation\<close>

text \<open>The quotients \<open>12345 / 1000\<close> and \<open>125 / 60\<close> as doubles.\<close>

lemma fl_12345: "fl (2469 / 200) = Fin (6949617174986097 / 2 ^ 49)"
proof -
  have "ilog2 (2469 / 200) = 3"
    by (simp add: ilog2_def bit_length_0 bit_length_pos)
  moreover have "round_half_even (2469 / 200 / pow2 (3 - 52)) = 6949617174986097"
    by (simp add: round_half_even_def pow2_def Let_def)
  ultimately show ?thesis
    using fl_positive [of "2469 / 200" 3 6949617174986097] by (simp add: pow2_def)
qed

lemma fl_125: "fl (25 / 12) = Fin (4691249611844267 / 2 ^ 51)"
proof -
  have "ilog2 (25 / 12) = 1"
    by (simp add: ilog2_def bit_length_0 bit_length_pos)
  moreover have "round_half_even (25 / 12 / pow2 (1 - 52)) = 4691249611844267"
    by (simp add: round_half_even_def pow2_def Let_def)
  ultimately show ?thesis
    using fl_positive [of "25 / 12" 1 4691249611844267] by (simp add: pow2_def)
qed

text \<open>
  The doubles \<open>1e24\<close> and \<open>6e24\<close>, divided by 1000 and by 60, give the doubles \<open>1e21\<close>
  and \<open>1e23\<close>, whose shortest digits are the single digit 1.
\<close>

lemma fl_1e24: "fl (124999999999999997902848 / 125) = Fin 1000000000000000000000"
proof -
  have "ilog2 (124999999999999997902848 / 125) = 69"
    by (simp add: ilog2_def bit_length_0 bit_length_pos)
  moreover have "round_half_even (124999999999999997902848 / 125 / pow2 (69 - 52)) =
      7629394531250000"
    by (simp add: round_half_even_def pow2_def Let_def)
  ultimately show ?thesis
    using fl_positive [of "124999999999999997902848 / 125" 69 7629394531250000]
    by (simp add: pow2_def)
qed

lemma fl_6e24: "fl (499999999999999991611392 / 5) = Fin 99999999999999991611392"
proof -
  have "ilog2 (499999999999999991611392 / 5) = 76"
    by (simp add: ilog2_def bit_length_0 bit_length_pos)
  moreover have "round_half_even (499999999999999991611392 / 5 / pow2 (76 - 52)) =
      5960464477539062"
    by (simp add: round_half_even_def pow2_def Let_def)
  ultimately show ?thesis
    using fl_positive [of "499999999999999991611392 / 5" 76 5960464477539062]
    by (simp add: pow2_def)
qed

lemma shortest_1e21: "shortest 1000000000000000000000 = (1, 1, 22)"
proof -
  have d: "dec_exp 1000000000000000000000 = 22"
    by (simp add: dec_exp_def digits_small digits_large)
  have "candidates 1000000000000000000000 1 = [(1, 1, 22)]"
    unfolding candidates_def d by (simp add: pow10_def eval_fl)
  then show ?thesis
    by (simp add: shortest_def shortest_from_found)
qed

lemma shortest_1e23: "shortest 99999999999999991611392 = (1, 1, 24)"
proof -
  have d: "dec_exp 99999999999999991611392 = 23"
    by (simp add: dec_exp_def digits_small digits_large)
  have "candidates 99999999999999991611392 1 = [(1, 1, 24)]"
    unfolding candidates_def d by (simp add: pow10_def eval_fl)
  then show ?thesis
    by (simp add: shortest_def shortest_from_found)
qed

subsection \<open>The texts in general\<close>

lemma length_digits_small: "length (digits n) \<le> Suc 0 \<longleftrightarrow> n < 10"
proof (cases "n < 10")
  case True
  then show ?thesis by (simp add: digits_small)
next
  case False
  then have "digits n = digits (n div 10) @ [digit (n mod 10)]"
    by (simp add: digits_large)
  moreover have "digits (n div 10) \<noteq> []"
    by (subst digits.simps) simp
  ultimately show ?thesis using False by (cases "digits (n div 10)") simp_all
qed

lemma toFixed_one_digit:
  assumes "0 \<le> q" and "q < 10 ^ 21"
  shows "Number_toFixed (Fin q) (Suc 0) =
           Inr (digits (nearest (q * 10) div 10) @ ''.'' @ digits (nearest (q * 10) mod 10))"
proof (cases "nearest (q * 10) < 10")
  case True
  then have "digits (nearest (q * 10) div 10) = ''0''"
    "digits (nearest (q * 10) mod 10) = digits (nearest (q * 10))"
    by (simp_all add: digits_small digit_def)
  with True assms show ?thesis
    by (simp add: Number_toFixed_def Let_def length_digits_small digits_small)
next
  case False
  then have split: "digits (nearest (q * 10)) =
      digits (nearest (q * 10) div 10) @ [digit (nearest (q * 10) mod 10)]"
    by (simp add: digits_large)
  have last: "digits (nearest (q * 10) mod 10) = [digit (nearest (q * 10) mod 10)]"
    by (simp add: digits_small)
  have "\<not> length (digits (nearest (q * 10))) \<le> Suc 0"
    using False by (simp add: length_digits_small)
  with assms show ?thesis
    by (simp add: Number_toFixed_def Let_def last) (simp add: split)
qed

lemma floor_half_close: "\<bar>of_int \<lfloor>y + 1 / 2\<rfloor> - y\<bar> \<le> 1 / (2 :: real)"
proof -
  have "of_int \<lfloor>y + 1 / 2\<rfloor> \<le> y + 1 / 2" "y + 1 / 2 < of_int \<lfloor>y + 1 / 2\<rfloor> + 1"
    using floor_correct [of "y + 1 / 2"] by simp_all
  then show ?thesis by linarith
qed

lemma nearest_close: "0 \<le> y \<Longrightarrow> \<bar>real (nearest y) - y\<bar> \<le> 1 / 2"
proof -
  assume "0 \<le> y"
  then have "0 \<le> \<lfloor>y + 1 / 2\<rfloor>" by simp
  then have "real (nearest y) = of_int \<lfloor>y + 1 / 2\<rfloor>" by (simp add: nearest_def)
  then show ?thesis using floor_half_close [of y] by simp
qed

lemma routeDistance_never_fails: "\<exists>text. routeDistance v = Inr text"
  by (auto simp: routeDistance_def Number_toFixed_def Let_def
      split: sum.splits jsnum.splits)

lemma Number_toString_integer:
  assumes "0 \<le> z" and "z < 2 ^ 53"
  shows "Number_toString (Fin (of_int z)) = digits (nat z)"
proof (cases "z = 0")
  case True
  then show ?thesis by (simp add: Number_toString_def digits_small digit_def)
next
  case False
  with assms(1) have pos: "1 \<le> nat z" by simp
  from assms have "nat z < 2 ^ 53" by (simp add: nat_less_iff)
  from shortest_safe_integer [OF pos this] have "layout (shortest (real (nat z))) = digits (nat z)" .
  moreover from assms(1) have "real (nat z) = of_int z" by simp
  ultimately show ?thesis
    using False assms(1) by (simp add: Number_toString_def positive_toString_def)
qed

lemma quotient_finite:
  assumes "0 \<le> x" and "x < 2 ^ 1024" and "2 \<le> d"
  shows "\<exists>q. Number_divide (Fin x) d = Fin q \<and> 0 \<le> q \<and>
              \<bar>q - x / d\<bar> \<le> max (x / d / 2 ^ 53) (pow2 (- 1075))"
proof -
  from assms have "x / d \<le> x / 2" by (intro divide_left_mono) simp_all
  also from assms(2) have "x / 2 < pow2 1023" by (simp add: pow2_def)
  finally have "x / d < pow2 1023" .
  moreover from assms have "0 \<le> x / d" by simp
  ultimately show ?thesis
    using fl_finite [of "x / d"] by (simp add: Number_divide_def)
qed

lemma routeDistance_tenths:
  assumes "Number_divide (Fin x) 1000 = Fin q" and "0 \<le> q" and "q < 10 ^ 21"
  shows "routeDistance (Fin x) =
           Inr (digits (nearest (q * 10) div 10) @ ''.'' @ digits (nearest (q * 10) mod 10) @ '' km'') \<and>
         \<bar>real (nearest (q * 10)) / 10 - q\<bar> \<le> 1 / 20"
proof -
  from assms(2) have "\<bar>real (nearest (q * 10)) - q * 10\<bar> \<le> 1 / 2"
    by (intro nearest_close) simp
  then have "\<bar>real (nearest (q * 10)) / 10 - q\<bar> \<le> 1 / 20" by linarith
  with assms show ?thesis
    by (simp add: routeDistance_def toFixed_one_digit)
qed

lemma routeDuration_minutes:
  assumes "Number_divide (Fin y) 60 = Fin p" and "0 \<le> p" and "\<lfloor>p + 1 / 2\<rfloor> < 2 ^ 53"
  shows "routeDuration (Fin y) = digits (nat \<lfloor>p + 1 / 2\<rfloor>) @ '' min'' \<and>
         \<bar>of_int \<lfloor>p + 1 / 2\<rfloor> - p\<bar> \<le> 1 / 2"
proof -
  from assms(2) have "0 \<le> \<lfloor>p + 1 / 2\<rfloor>" by simp
  with assms(1,3) have "routeDuration (Fin y) = digits (nat \<lfloor>p + 1 / 2\<rfloor>) @ '' min''"
    by (simp add: routeDuration_def Math_round_def Number_toString_integer)
  then show ?thesis using floor_half_close [of p] by simp
qed

text \<open>
  C9, as the code has it. Neither text can fail. A finite non-negative distance
  (below \<open>2^1024\<close>) divided by 1000 gives a finite non-negative double \<open>q\<close>, the quotient
  up to the rounding error of a double; when \<open>q\<close> is below \<open>10^21\<close>, the distance text is
  \<open>q\<close> rounded to one decimal, the nearest tenth and the upper one of two equally near,
  followed by \<open>km\<close>. A finite non-negative duration divided by 60 gives such a double
  \<open>p\<close>; when \<open>p\<close> rounded to the nearest integer, the upper one of two equally near, is
  below \<open>2^53\<close>, the duration text is the decimal numeral of that integer followed by
  \<open>min\<close>. The instances below are \<open>12345\<close> metres, \<open>12.3 km\<close>, and \<open>125\<close> seconds,
  \<open>2 min\<close>.
\<close>

theorem route_texts_in_range:
  "(\<exists>text. routeDistance v = Inr text) \<and>
   (0 \<le> x \<and> x < 2 ^ 1024 \<longrightarrow>
      (\<exists>q. Number_divide (Fin x) 1000 = Fin q \<and> 0 \<le> q \<and>
            \<bar>q - x / 1000\<bar> \<le> max (x / 1000 / 2 ^ 53) (pow2 (- 1075)) \<and>
            (q < 10 ^ 21 \<longrightarrow>
               routeDistance (Fin x) =
                 Inr (digits (nearest (q * 10) div 10) @ ''.'' @
                      digits (nearest (q * 10) mod 10) @ '' km'') \<and>
               \<bar>real (nearest (q * 10)) / 10 - q\<bar> \<le> 1 / 20))) \<and>
   (0 \<le> y \<and> y < 2 ^ 1024 \<longrightarrow>
      (\<exists>p. Number_divide (Fin y) 60 = Fin p \<and> 0 \<le> p \<and>
            \<bar>p - y / 60\<bar> \<le> max (y / 60 / 2 ^ 53) (pow2 (- 1075)) \<and>
            (\<lfloor>p + 1 / 2\<rfloor> < 2 ^ 53 \<longrightarrow>
               routeDuration (Fin y) = digits (nat \<lfloor>p + 1 / 2\<rfloor>) @ '' min'' \<and>
               \<bar>of_int \<lfloor>p + 1 / 2\<rfloor> - p\<bar> \<le> 1 / 2)))"
proof (intro conjI impI)
  show "\<exists>text. routeDistance v = Inr text" by (rule routeDistance_never_fails)
next
  assume "0 \<le> x \<and> x < 2 ^ 1024"
  then obtain q where q: "Number_divide (Fin x) 1000 = Fin q" "0 \<le> q"
      "\<bar>q - x / 1000\<bar> \<le> max (x / 1000 / 2 ^ 53) (pow2 (- 1075))"
    using quotient_finite [of x 1000] by auto
  with routeDistance_tenths [OF q(1,2)] show "\<exists>q. Number_divide (Fin x) 1000 = Fin q \<and> 0 \<le> q \<and>
            \<bar>q - x / 1000\<bar> \<le> max (x / 1000 / 2 ^ 53) (pow2 (- 1075)) \<and>
            (q < 10 ^ 21 \<longrightarrow>
               routeDistance (Fin x) =
                 Inr (digits (nearest (q * 10) div 10) @ ''.'' @
                      digits (nearest (q * 10) mod 10) @ '' km'') \<and>
               \<bar>real (nearest (q * 10)) / 10 - q\<bar> \<le> 1 / 20)"
    by blast
next
  assume "0 \<le> y \<and> y < 2 ^ 1024"
  then obtain p where p: "Number_divide (Fin y) 60 = Fin p" "0 \<le> p"
      "\<bar>p - y / 60\<bar> \<le> max (y / 60 / 2 ^ 53) (pow2 (- 1075))"
    using quotient_finite [of y 60] by auto
  with routeDuration_minutes [OF p(1,2)] show "\<exists>p. Number_divide (Fin y) 60 = Fin p \<and> 0 \<le> p \<and>
            \<bar>p - y / 60\<bar> \<le> max (y / 60 / 2 ^ 53) (pow2 (- 1075)) \<and>
            (\<lfloor>p + 1 / 2\<rfloor> < 2 ^ 53 \<longrightarrow>
               routeDuration (Fin y) = digits (nat \<lfloor>p + 1 / 2\<rfloor>) @ '' min'' \<and>
               \<bar>of_int \<lfloor>p + 1 / 2\<rfloor> - p\<bar> \<le> 1 / 2)"
    by blast
qed

theorem route_texts_in_range_witness:
  "(0 :: real) \<le> 12345 \<and> (12345 :: real) < 2 ^ 1024 \<and>
   Number_divide (Fin 12345) 1000 = Fin (6949617174986097 / 2 ^ 49) \<and>
   (6949617174986097 / 2 ^ 49 :: real) < 10 ^ 21 \<and>
   routeDistance (Fin 12345) = Inr ''12.3 km'' \<and>
   (0 :: real) \<le> 125 \<and> (125 :: real) < 2 ^ 1024 \<and>
   Number_divide (Fin 125) 60 = Fin (4691249611844267 / 2 ^ 51) \<and>
   \<lfloor>4691249611844267 / 2 ^ 51 + 1 / 2 :: real\<rfloor> < 2 ^ 53 \<and>
   routeDuration (Fin 125) = ''2 min''"
proof -
  have d: "Number_divide (Fin 12345) 1000 = Fin (6949617174986097 / 2 ^ 49)"
    using fl_12345 by (simp add: Number_divide_def)
  have t: "Number_divide (Fin 125) 60 = Fin (4691249611844267 / 2 ^ 51)"
    using fl_125 by (simp add: Number_divide_def)
  have n: "nearest (6949617174986097 / 2 ^ 49 * 10) = 123"
    by (simp add: nearest_def)
  have m: "\<lfloor>4691249611844267 / 2 ^ 51 + 1 / 2 :: real\<rfloor> = 2"
    by simp
  have r: "(0 :: real) \<le> 12345 \<and> (12345 :: real) < 2 ^ 1024"
    "(0 :: real) \<le> 125 \<and> (125 :: real) < 2 ^ 1024"
    by simp_all
  note th = route_texts_in_range [of "Fin 0" 12345 125]
  from th r(1) obtain q where q: "Number_divide (Fin 12345) 1000 = Fin q"
    "q < 10 ^ 21 \<longrightarrow> routeDistance (Fin 12345) =
       Inr (digits (nearest (q * 10) div 10) @ ''.'' @ digits (nearest (q * 10) mod 10) @ '' km'')"
    by blast
  from th r(2) obtain p where p: "Number_divide (Fin 125) 60 = Fin p"
    "\<lfloor>p + 1 / 2\<rfloor> < 2 ^ 53 \<longrightarrow> routeDuration (Fin 125) = digits (nat \<lfloor>p + 1 / 2\<rfloor>) @ '' min''"
    by blast
  from q(1) d have q': "q = 6949617174986097 / 2 ^ 49" by simp
  from p(1) t have p': "p = 4691249611844267 / 2 ^ 51" by simp
  from q(2) have "routeDistance (Fin 12345) = Inr (digits (123 div 10) @ ''.'' @ digits (123 mod 10) @ '' km'')"
    unfolding q' n by simp
  then have a: "routeDistance (Fin 12345) = Inr ''12.3 km''"
    by (simp add: digits_small digits_large digit_def)
  from p(2) have "routeDuration (Fin 125) = digits (nat 2) @ '' min''"
    unfolding p' m by simp
  then have b: "routeDuration (Fin 125) = ''2 min''"
    by (simp add: digits_small digit_def)
  from a b d t m r show ?thesis by simp
qed

text \<open>
  The claim as the specification words it fails on finite non-negative inputs that
  are large. The double \<open>1e24\<close> divided by 1000 is the double \<open>1e21\<close>, from which on
  \<open>toFixed\<close> writes the exponent notation, with no decimal. The double \<open>6e24\<close> divided
  by 60 is the double \<open>1e23\<close>, the integer \<open>99999999999999991611392\<close>, and it is
  written with the single digit of its shortest notation.
\<close>

theorem route_texts_large_counterexample:
  "routeDistance (Fin 999999999999999983222784) = Inr ''1e+21 km'' \<and>
   routeDuration (Fin 5999999999999999899336704) = ''1e+23 min''"
proof -
  have "Number_toString (Fin 1000000000000000000000) = ''1e+21''"
    by (simp add: Number_toString_def positive_toString_def shortest_1e21 layout_def
        digits_small digits_large digit_def)
  then have "Number_toFixed (Fin 1000000000000000000000) (Suc 0) = Inr ''1e+21''"
    by (simp add: Number_toFixed_def)
  then have a: "routeDistance (Fin 999999999999999983222784) = Inr ''1e+21 km''"
    using fl_1e24 by (simp add: routeDistance_def Number_divide_def)
  have "Number_toString (Fin 99999999999999991611392) = ''1e+23''"
    by (simp add: Number_toString_def positive_toString_def shortest_1e23 layout_def
        digits_small digits_large digit_def)
  then have b: "routeDuration (Fin 5999999999999999899336704) = ''1e+23 min''"
    using fl_6e24 by (simp add: routeDuration_def Number_divide_def Math_round_def)
  from a b show ?thesis by simp
qed

end
